theory Spec2Isabelle
  imports Main
begin

section \<open>Bytes and strings\<close>

text \<open>
  A \<^verbatim>\<open>std::string\<close> is a list of bytes. The program never calls \<^verbatim>\<open>setlocale\<close>, so
  \<^verbatim>\<open>std::isspace\<close> and \<^verbatim>\<open>std::tolower\<close> are those of the C locale.
\<close>

definition CR :: char where "CR = CHR 0x0D"
definition LF :: char where "LF = CHR 0x0A"
definition crlf :: string where "crlf = [CHR 0x0D, CHR 0x0A]"
definition crlfcrlf :: string where "crlfcrlf = [CHR 0x0D, CHR 0x0A, CHR 0x0D, CHR 0x0A]"

definition isspace :: "char \<Rightarrow> bool" where
  "isspace c = (c = CHR '' '' \<or> c = CHR 0x09 \<or> c = CHR 0x0A \<or> c = CHR 0x0B \<or> c = CHR 0x0C \<or> c = CHR 0x0D)"

definition tolower :: "char \<Rightarrow> char" where
  "tolower c =
     (case map_of (zip ''ABCDEFGHIJKLMNOPQRSTUVWXYZ'' ''abcdefghijklmnopqrstuvwxyz'') c of
        Some d \<Rightarrow> d
      | None \<Rightarrow> c)"

definition to_lower :: "string \<Rightarrow> string" where
  "to_lower s = map tolower s"

definition trim :: "string \<Rightarrow> string" where
  "trim s = rev (dropWhile isspace (rev (dropWhile isspace s)))"

text \<open>\<^verbatim>\<open>s.find(ch)\<close> and \<^verbatim>\<open>s.rfind(ch)\<close>: \<open>None\<close> is \<^verbatim>\<open>npos\<close>.\<close>

fun find_char :: "char \<Rightarrow> string \<Rightarrow> nat option" where
  "find_char c [] = None"
| "find_char c (x # xs) = (if x = c then Some 0 else map_option Suc (find_char c xs))"

fun rfind_char :: "char \<Rightarrow> string \<Rightarrow> nat option" where
  "rfind_char c [] = None"
| "rfind_char c (x # xs) =
     (case rfind_char c xs of
        Some i \<Rightarrow> Some (Suc i)
      | None \<Rightarrow> if x = c then Some 0 else None)"

text \<open>\<^verbatim>\<open>hay.find(nd)\<close> and \<^verbatim>\<open>hay.find(nd, pos)\<close>: the first offset at which \<open>nd\<close> occurs.\<close>

fun find_str :: "string \<Rightarrow> string \<Rightarrow> nat option" where
  "find_str nd [] = (if nd = [] then Some 0 else None)"
| "find_str nd (c # cs) =
     (if take (length nd) (c # cs) = nd then Some 0 else map_option Suc (find_str nd cs))"

definition find_from :: "string \<Rightarrow> string \<Rightarrow> nat \<Rightarrow> nat option" where
  "find_from nd hay pos =
     (if length hay < pos then None else map_option (\<lambda>i. pos + i) (find_str nd (drop pos hay)))"

text \<open>\<^verbatim>\<open>s.substr(pos, n)\<close> for \<open>pos \<le> length s\<close>; the call sites where \<open>pos\<close> can
  exceed the size are modelled with the exception they raise.\<close>

definition substr :: "string \<Rightarrow> nat \<Rightarrow> nat \<Rightarrow> string" where
  "substr s pos n = take n (drop pos s)"

section \<open>Number parsing and printing\<close>

fun index_of :: "'a \<Rightarrow> 'a list \<Rightarrow> nat option" where
  "index_of c [] = None"
| "index_of c (x # xs) = (if x = c then Some 0 else map_option Suc (index_of c xs))"

definition digit_val :: "nat \<Rightarrow> char \<Rightarrow> nat option" where
  "digit_val base c =
     (case index_of (tolower c) ''0123456789abcdef'' of
        Some d \<Rightarrow> if d < base then Some d else None
      | None \<Rightarrow> None)"

definition is_digit :: "nat \<Rightarrow> char \<Rightarrow> bool" where
  "is_digit base c = (digit_val base c \<noteq> None)"

definition digits_val :: "nat \<Rightarrow> string \<Rightarrow> nat" where
  "digits_val base ds = foldl (\<lambda>a c. a * base + the (digit_val base c)) 0 ds"

text \<open>
  The subject sequence of \<^verbatim>\<open>strtol\<close>, \<^verbatim>\<open>strtoul\<close> and \<^verbatim>\<open>strtoull\<close>: leading white space
  is skipped, one sign is optional, base 16 allows a \<^verbatim>\<open>0x\<close> prefix, the longest run of
  digits is read and what follows is ignored. The result is the sign and the magnitude,
  or \<open>None\<close> when there is no digit (\<^verbatim>\<open>std::invalid_argument\<close>).
\<close>

definition strto :: "nat \<Rightarrow> string \<Rightarrow> (bool \<times> nat) option" where
  "strto base s =
     (let s1 = dropWhile isspace s;
          neg = (s1 \<noteq> [] \<and> hd s1 = CHR ''-'');
          s2 = (if s1 \<noteq> [] \<and> (hd s1 = CHR ''-'' \<or> hd s1 = CHR ''+'') then tl s1 else s1);
          s3 = (if base = 16 \<and> length s2 \<ge> 3 \<and> hd s2 = CHR ''0'' \<and> tolower (s2 ! 1) = CHR ''x''
                    \<and> is_digit 16 (s2 ! 2)
                then drop 2 s2 else s2);
          ds = takeWhile (is_digit base) s3
      in if ds = [] then None else Some (neg, digits_val base ds))"

text \<open>\<^verbatim>\<open>std::stoi\<close>: \<^verbatim>\<open>int\<close> is 32 bits; out of range throws \<^verbatim>\<open>std::out_of_range\<close>.\<close>

definition stoi :: "string \<Rightarrow> int option" where
  "stoi s =
     (case strto 10 s of
        None \<Rightarrow> None
      | Some (neg, m) \<Rightarrow>
          (let v = (if neg then - int m else int m)
           in if v < - (2 ^ 31) \<or> 2 ^ 31 - 1 < v then None else Some v))"

text \<open>\<^verbatim>\<open>std::stoul\<close> and \<^verbatim>\<open>std::stoull\<close> on a 64-bit target: a magnitude beyond
  \<open>2^64 - 1\<close> throws, a minus sign negates modulo \<open>2^64\<close>.\<close>

definition stoull :: "nat \<Rightarrow> string \<Rightarrow> nat option" where
  "stoull base s =
     (case strto base s of
        None \<Rightarrow> None
      | Some (neg, m) \<Rightarrow>
          if 2 ^ 64 \<le> m then None
          else Some (if neg then (2 ^ 64 - m) mod 2 ^ 64 else m))"

definition stoul :: "string \<Rightarrow> nat option" where
  "stoul s = stoull 10 s"

fun show_nat :: "nat \<Rightarrow> string" where
  "show_nat n =
     (if n < 10 then [''0123456789'' ! n]
      else show_nat (n div 10) @ [''0123456789'' ! (n mod 10)])"

declare show_nat.simps [simp del]

definition show_int :: "int \<Rightarrow> string" where
  "show_int i = (if i < 0 then CHR ''-'' # show_nat (nat (- i)) else show_nat (nat i))"

section \<open>Requests\<close>

record Request =
  "method" :: string
  path :: string
  version :: string
  headers :: "(string \<times> string) list"
  headers_lc :: "string \<rightharpoonup> string"
  body :: string
  leftover :: string
  normalized_host :: string
  chunked :: bool
  client_wants_keepalive :: bool

definition Request0 :: Request where
  "Request0 = \<lparr> method = [], path = [], version = [], headers = [], headers_lc = Map.empty,
                body = [], leftover = [], normalized_host = [], chunked = False,
                client_wants_keepalive = False \<rparr>"

definition request_wants_keepalive :: "Request \<Rightarrow> bool" where
  "request_wants_keepalive req =
     (let (connection_close, connection_keepalive) =
            (case headers_lc req ''connection'' of
               None \<Rightarrow> (False, False)
             | Some v \<Rightarrow>
                 (let connection = to_lower v
                  in (find_str ''close'' connection \<noteq> None,
                      find_str ''keep-alive'' connection \<noteq> None)));
          version = to_lower (version req)
      in if version = ''http/1.1'' then \<not> connection_close
         else if version = ''http/1.0'' then connection_keepalive
         else False)"

section \<open>Route targets\<close>

definition parse_host_port :: "string \<Rightarrow> (string \<times> int) option" where
  "parse_host_port target =
     (case rfind_char CHR '':'' target of
        None \<Rightarrow> None
      | Some pos \<Rightarrow>
          if pos = 0 \<or> length target \<le> pos + 1 then None
          else (case stoi (drop (pos + 1) target) of
                  None \<Rightarrow> None
                | Some port \<Rightarrow>
                    if 1 \<le> port \<and> port \<le> 65535 then Some (take pos target, port) else None))"

section \<open>The liveness probe\<close>

datatype errno = EAGAIN | EWOULDBLOCK | EINTR | Other_errno nat

text \<open>What one \<^verbatim>\<open>recv(fd, &c, 1, MSG_PEEK | MSG_DONTWAIT)\<close> returns: a byte count, or
  \<open>-1\<close> with \<^verbatim>\<open>errno\<close>.\<close>

datatype peek_result = Peeked nat | Peek_failed errno

text \<open>
  \<^verbatim>\<open>socket_is_idle_usable\<close> calls itself again after \<^verbatim>\<open>EINTR\<close>. The argument is what the
  successive \<^verbatim>\<open>recv\<close> calls return; \<open>None\<close> means that every one of them was
  interrupted, so the probe has not returned.
\<close>

fun socket_is_idle_usable :: "peek_result list \<Rightarrow> bool option" where
  "socket_is_idle_usable [] = None"
| "socket_is_idle_usable (Peeked n # rs) = (if n = 0 then Some False else Some False)"
| "socket_is_idle_usable (Peek_failed e # rs) =
     (if e = EAGAIN \<or> e = EWOULDBLOCK then Some True
      else if e = EINTR then socket_is_idle_usable rs
      else Some False)"

section \<open>Reading from a socket\<close>

text \<open>
  A socket is read through the list of what its successive \<^verbatim>\<open>recv\<close> calls return:
  \<open>Recv_data c cs\<close> for \<open>n > 0\<close> bytes, \<open>Recv_eof\<close> for \<open>n = 0\<close>, \<open>Recv_eintr\<close> for
  \<open>-1\<close> with \<^verbatim>\<open>EINTR\<close>, \<open>Recv_error m\<close> for \<open>-1\<close> with another \<^verbatim>\<open>errno\<close> whose
  \<^verbatim>\<open>strerror\<close> text is \<open>m\<close>. Once the list is used up the peer has closed: \<^verbatim>\<open>recv\<close>
  returns 0.
\<close>

datatype recv_result = Recv_data char string | Recv_eof | Recv_eintr | Recv_error string

text \<open>How a call ends when it does not succeed: it returns \<^verbatim>\<open>false\<close> with an error
  text, or an exception that nothing catches leaves it and the process terminates.\<close>

datatype failure = Failed string | Terminated

definition kMaxHeaderBytes :: nat where "kMaxHeaderBytes = 1024 * 1024"

fun recv_append :: "string \<Rightarrow> recv_result list \<Rightarrow> (string + string) \<times> recv_result list" where
  "recv_append buf [] = (Inl ''client closed connection'', [])"
| "recv_append buf (Recv_eof # es) = (Inl ''client closed connection'', es)"
| "recv_append buf (Recv_eintr # es) = recv_append buf es"
| "recv_append buf (Recv_error m # es) = (Inl (''recv failed: '' @ m), es)"
| "recv_append buf (Recv_data c cs # es) = (Inr (buf @ c # cs), es)"

lemma recv_append_shorter: "recv_append buf es = (Inr buf', es') \<Longrightarrow> length es' < length es"
  by (induction buf es rule: recv_append.induct) auto

function ensure_bytes_available ::
  "string \<Rightarrow> nat \<Rightarrow> recv_result list \<Rightarrow> (string + string) \<times> recv_result list" where
  "ensure_bytes_available buf need es =
     (if length buf < need then
        (case recv_append buf es of
           (Inl e, es') \<Rightarrow> (Inl e, es')
         | (Inr buf', es') \<Rightarrow> ensure_bytes_available buf' need es')
      else (Inr buf, es))"
  by pat_completeness auto
termination
  by (relation "measure (\<lambda>(buf, need, es). length es)") (auto dest: recv_append_shorter [OF sym])

declare ensure_bytes_available.simps [simp del]

lemma find_str_bounds: "find_str nd hay = Some i \<Longrightarrow> i + length nd \<le> length hay"
proof (induction hay arbitrary: i)
  case Nil
  then show ?case by (simp split: if_splits)
next
  case (Cons c cs)
  show ?case
  proof (cases "take (length nd) (c # cs) = nd")
    case True
    then have "length (take (length nd) (c # cs)) = length nd"
      by simp
    then have "length nd \<le> length (c # cs)"
      by (simp only: length_take)
    with True Cons.prems show ?thesis by simp
  next
    case False
    with Cons.prems obtain j where "find_str nd cs = Some j" "i = Suc j" by auto
    with Cons.IH show ?thesis by simp
  qed
qed

lemma find_from_bounds:
  "find_from nd hay pos = Some i \<Longrightarrow> pos \<le> i \<and> i + length nd \<le> length hay"
  by (auto simp: find_from_def split: if_splits dest!: find_str_bounds)

text \<open>The trailer loop of \<^verbatim>\<open>decode_chunked_body\<close>: lines are consumed up to the first
  empty one; what follows it is the leftover.\<close>

function consume_trailers ::
  "string \<Rightarrow> nat \<Rightarrow> recv_result list \<Rightarrow> (failure + string) \<times> recv_result list" where
  "consume_trailers buf cursor es =
     (case find_from crlf buf cursor of
        None \<Rightarrow>
          (case recv_append buf es of
             (Inl e, es') \<Rightarrow> (Inl (Failed e), es')
           | (Inr buf', es') \<Rightarrow> consume_trailers buf' cursor es')
      | Some trailer_end \<Rightarrow>
          if substr buf cursor (trailer_end - cursor) = []
          then (Inr (drop (trailer_end + 2) buf), es)
          else consume_trailers buf (trailer_end + 2) es)"
  by pat_completeness auto
termination
proof (relation "measures [\<lambda>(buf, cursor, es). length es, \<lambda>(buf, cursor, es). length buf - cursor]",
    goal_cases)
  case 1
  show ?case by simp
next
  case (2 buf cursor es x xa y)
  then show ?case by (auto dest: recv_append_shorter [OF sym])
next
  case (3 buf cursor es trailer_end)
  then have "cursor \<le> trailer_end" "trailer_end + 2 \<le> length buf"
    by (auto dest!: find_from_bounds simp: crlf_def)
  with 3 show ?case by (auto simp: substr_def)
qed

declare consume_trailers.simps [simp del]

text \<open>
  The chunk loop of \<^verbatim>\<open>decode_chunked_body\<close>. \<open>cursor\<close> and \<open>chunk_size\<close> are
  \<^verbatim>\<open>size_t\<close>: their sums wrap at \<open>2^64\<close>. After a wrap the cursor can move backwards,
  so the loop need not end: \<open>None\<close> is a call that does not return.
  \<^verbatim>\<open>buf.substr(cursor, 2)\<close> throws when the cursor is beyond the buffer.
\<close>

partial_function (option) decode_chunks ::
  "string \<Rightarrow> nat \<Rightarrow> string \<Rightarrow> recv_result list
     \<Rightarrow> ((failure + string \<times> string) \<times> recv_result list) option" where
  "decode_chunks buf cursor out_body es =
     (case find_from crlf buf cursor of
        None \<Rightarrow>
          (case recv_append buf es of
             (Inl e, es') \<Rightarrow> Some (Inl (Failed e), es')
           | (Inr buf', es') \<Rightarrow> decode_chunks buf' cursor out_body es')
      | Some line_end \<Rightarrow>
          (let line = trim (substr buf cursor (line_end - cursor));
               cursor1 = line_end + 2;
               size_str = (case find_char CHR '';'' line of None \<Rightarrow> line | Some semi \<Rightarrow> take semi line)
           in case stoull 16 size_str of
                None \<Rightarrow> Some (Inl (Failed ''invalid chunk size''), es)
              | Some chunk_size \<Rightarrow>
                  (case ensure_bytes_available buf ((cursor1 + chunk_size + 2) mod 2 ^ 64) es of
                     (Inl e, es') \<Rightarrow> Some (Inl (Failed e), es')
                   | (Inr buf', es') \<Rightarrow>
                       if chunk_size = 0 then
                         (case consume_trailers buf' cursor1 es' of
                            (Inl f, es'') \<Rightarrow> Some (Inl f, es'')
                          | (Inr rest, es'') \<Rightarrow> Some (Inr (out_body, rest), es''))
                       else
                         (let out_body' = out_body @ substr buf' cursor1 chunk_size;
                              cursor2 = (cursor1 + chunk_size) mod 2 ^ 64
                          in if length buf' < cursor2 then Some (Inl Terminated, es')
                             else if substr buf' cursor2 2 \<noteq> crlf
                             then Some (Inl (Failed ''invalid chunk terminator''), es')
                             else decode_chunks buf' (cursor2 + 2) out_body' es'))))"

definition decode_chunked_body ::
  "string \<Rightarrow> recv_result list \<Rightarrow> ((failure + string \<times> string) \<times> recv_result list) option" where
  "decode_chunked_body initial es = decode_chunks initial 0 [] es"

section \<open>\<^verbatim>\<open>read_request\<close>\<close>

text \<open>The head loop: bytes are appended until the buffer holds \<^verbatim>\<open>\r\n\r\n\<close>. The result
  is the offset \<open>header_end\<close> with the buffer, or the error text.\<close>

fun read_head ::
  "string \<Rightarrow> recv_result list \<Rightarrow> (string + nat \<times> string) \<times> recv_result list" where
  "read_head buf es =
     (case find_str crlfcrlf buf of
        Some header_end \<Rightarrow> (Inr (header_end, buf), es)
      | None \<Rightarrow>
          if kMaxHeaderBytes < length buf then (Inl ''request headers too large'', es)
          else (case es of
                  [] \<Rightarrow> (Inl ''client closed before request'', [])
                | Recv_eof # es' \<Rightarrow> (Inl ''client closed before request'', es')
                | Recv_eintr # es' \<Rightarrow> read_head buf es'
                | Recv_error m # es' \<Rightarrow> (Inl (''recv failed: '' @ m), es')
                | Recv_data c cs # es' \<Rightarrow> read_head (buf @ c # cs) es'))"

declare read_head.simps [simp del]

text \<open>\<^verbatim>\<open>std::getline\<close> on the rest of a stream: \<open>None\<close> at the end of the stream, else the
  line up to the next \<^verbatim>\<open>\n\<close> and what follows it.\<close>

definition getline :: "string \<Rightarrow> (string \<times> string) option" where
  "getline s =
     (if s = [] then None
      else Some (takeWhile (\<lambda>c. c \<noteq> LF) s, drop 1 (dropWhile (\<lambda>c. c \<noteq> LF) s)))"

definition strip_cr :: "string \<Rightarrow> string" where
  "strip_cr line = (if line \<noteq> [] \<and> last line = CR then butlast line else line)"

text \<open>\<^verbatim>\<open>stream >> word\<close>: white space is skipped, then the characters up to the next
  white space are the word; it fails when none is left.\<close>

definition extract_word :: "string \<Rightarrow> (string \<times> string) option" where
  "extract_word s =
     (let s' = dropWhile isspace s
      in if s' = [] then None
         else Some (takeWhile (\<lambda>c. \<not> isspace c) s', dropWhile (\<lambda>c. \<not> isspace c) s'))"

definition parse_request_line :: "string \<Rightarrow> (string \<times> string \<times> string) option" where
  "parse_request_line line =
     (case extract_word line of
        None \<Rightarrow> None
      | Some (m, r1) \<Rightarrow>
          (case extract_word r1 of
             None \<Rightarrow> None
           | Some (p, r2) \<Rightarrow>
               (case extract_word r2 of
                  None \<Rightarrow> None
                | Some (v, r3) \<Rightarrow> Some (m, p, v))))"

lemma getline_shorter: "getline s = Some (line, rest) \<Longrightarrow> length rest < length s"
proof -
  assume a: "getline s = Some (line, rest)"
  then have "s \<noteq> []" "rest = drop 1 (dropWhile (\<lambda>c. c \<noteq> LF) s)"
    by (auto simp: getline_def split: if_splits)
  moreover have "length (dropWhile (\<lambda>c. c \<noteq> LF) s) \<le> length s"
    by (rule length_dropWhile_le)
  ultimately show ?thesis
    by (cases "dropWhile (\<lambda>c. c \<noteq> LF) s") auto
qed

function parse_header_lines :: "string \<Rightarrow> Request \<Rightarrow> Request" where
  "parse_header_lines s req =
     (case getline s of
        None \<Rightarrow> req
      | Some (line0, rest) \<Rightarrow>
          (let line = strip_cr line0
           in if line = [] then req
              else (case find_char CHR '':'' line of
                      None \<Rightarrow> parse_header_lines rest req
                    | Some pos \<Rightarrow>
                        (let key = trim (substr line 0 pos);
                             val = trim (drop (pos + 1) line)
                         in parse_header_lines rest
                              (req\<lparr>headers := headers req @ [(key, val)],
                                   headers_lc := (headers_lc req)(to_lower key \<mapsto> val)\<rparr>)))))"
  by pat_completeness auto
termination
  by (relation "measure (\<lambda>(s, req). length s)") (auto dest: getline_shorter)

declare parse_header_lines.simps [simp del]

definition strip_port_from_host :: "string \<Rightarrow> string" where
  "strip_port_from_host host =
     (case find_char CHR '':'' host of None \<Rightarrow> host | Some pos \<Rightarrow> substr host 0 pos)"

text \<open>The head of a request: the request line, the header lines and the normalised host.\<close>

definition parse_head :: "string \<Rightarrow> string + Request" where
  "parse_head headers_blob =
     (case getline headers_blob of
        None \<Rightarrow> Inl ''missing request line''
      | Some (line0, rest) \<Rightarrow>
          (case parse_request_line (strip_cr line0) of
             None \<Rightarrow> Inl ''invalid request line''
           | Some (m, p, v) \<Rightarrow>
               (let req = parse_header_lines rest (Request0\<lparr>method := m, path := p, version := v\<rparr>)
                in Inr (case headers_lc req ''host'' of
                          None \<Rightarrow> req
                        | Some h \<Rightarrow>
                            req\<lparr>normalized_host := to_lower (strip_port_from_host (trim h))\<rparr>))))"

text \<open>The body loop for a declared length: every failure of \<^verbatim>\<open>recv\<close> but \<^verbatim>\<open>EINTR\<close>
  gives the same error text.\<close>

fun recv_body :: "nat \<Rightarrow> string \<Rightarrow> recv_result list \<Rightarrow> (string + string) \<times> recv_result list" where
  "recv_body content_length b es =
     (if length b < content_length then
        (case es of
           [] \<Rightarrow> (Inl ''client closed before full request body'', [])
         | Recv_eintr # es' \<Rightarrow> recv_body content_length b es'
         | Recv_data c cs # es' \<Rightarrow> recv_body content_length (b @ c # cs) es'
         | Recv_eof # es' \<Rightarrow> (Inl ''client closed before full request body'', es')
         | Recv_error m # es' \<Rightarrow> (Inl ''client closed before full request body'', es'))
      else (Inr b, es))"

declare recv_body.simps [simp del]

definition finish_request :: "Request \<Rightarrow> string \<Rightarrow> string \<Rightarrow> Request" where
  "finish_request req b rest =
     (let req' = req\<lparr>body := b, leftover := rest\<rparr>
      in req'\<lparr>client_wants_keepalive := request_wants_keepalive req'\<rparr>)"

text \<open>
  The framing part of \<^verbatim>\<open>read_request\<close>, from the parsed head and the bytes
  \<open>initial\<close> that followed it in the buffer. \<^verbatim>\<open>Content-Length\<close> is converted first, then
  \<^verbatim>\<open>Transfer-Encoding\<close> is looked at. Before the body loop for a declared length the code
  calls \<^verbatim>\<open>req.body.reserve(content_length)\<close>, which throws \<^verbatim>\<open>std::length_error\<close> beyond
  \<^verbatim>\<open>max_size()\<close> and \<^verbatim>\<open>std::bad_alloc\<close> when the memory is not there; nothing catches
  either. The parameter \<open>can_reserve\<close> tells for which lengths the call returns.
\<close>

definition read_body ::
  "(nat \<Rightarrow> bool) \<Rightarrow> Request \<Rightarrow> string \<Rightarrow> recv_result list
     \<Rightarrow> ((failure + Request) \<times> recv_result list) option" where
  "read_body can_reserve req0 initial es =
     (case (case headers_lc req0 ''content-length'' of None \<Rightarrow> Some 0 | Some v \<Rightarrow> stoul v) of
        None \<Rightarrow> Some (Inl (Failed ''invalid content-length''), es)
      | Some content_length \<Rightarrow>
          (let is_chunked =
                 (case headers_lc req0 ''transfer-encoding'' of
                    None \<Rightarrow> False
                  | Some v \<Rightarrow> find_str ''chunked'' (to_lower v) \<noteq> None);
               req = req0\<lparr>chunked := is_chunked\<rparr>
           in if is_chunked then
                (case decode_chunked_body initial es of
                   None \<Rightarrow> None
                 | Some (Inl f, es') \<Rightarrow> Some (Inl f, es')
                 | Some (Inr (b, rest), es') \<Rightarrow> Some (Inr (finish_request req b rest), es'))
              else if content_length \<le> length initial then
                Some (Inr (finish_request req (substr initial 0 content_length)
                             (drop content_length initial)), es)
              else if \<not> can_reserve content_length then Some (Inl Terminated, es)
              else
                (case recv_body content_length initial es of
                   (Inl e, es') \<Rightarrow> Some (Inl (Failed e), es')
                 | (Inr b, es') \<Rightarrow>
                     Some (Inr (finish_request req (take content_length b)
                                  (drop content_length b)), es'))))"

text \<open>\<^verbatim>\<open>read_request(client_fd, pending, req, error)\<close>. On success the new \<^verbatim>\<open>pending\<close> is
  the \<open>leftover\<close> of the request.\<close>

definition read_request ::
  "(nat \<Rightarrow> bool) \<Rightarrow> string \<Rightarrow> recv_result list
     \<Rightarrow> ((failure + Request) \<times> recv_result list) option" where
  "read_request can_reserve pending es =
     (case read_head pending es of
        (Inl e, es') \<Rightarrow> Some (Inl (Failed e), es')
      | (Inr (header_end, buf), es') \<Rightarrow>
          (let headers_len = header_end + 4
           in case parse_head (substr buf 0 headers_len) of
                Inl e \<Rightarrow> Some (Inl (Failed e), es')
              | Inr req \<Rightarrow> read_body can_reserve req (drop headers_len buf) es'))"

section \<open>The client handler, up to the route target\<close>

record Globals =
  g_active_clients :: int
  g_overload_rejections :: nat
  g_max_active_clients :: int
  g_upstream_connect_timeout_ms :: int
  g_upstream_io_timeout_ms :: int
  g_client_io_timeout_ms :: int
  g_pool_max_idle_per_key :: nat
  g_pool_max_idle_total :: nat
  g_pool_idle_timeout :: int
  g_pool_max_age :: int

definition kHeaderName :: string where "kHeaderName = ''X-Flow-Domainsd''"
definition kHeaderValue :: string where "kHeaderValue = ''1''"

text \<open>The bytes that \<^verbatim>\<open>send_simple_response\<close> hands to \<^verbatim>\<open>send_all\<close>.\<close>

definition send_simple_response :: "int \<Rightarrow> string \<Rightarrow> string \<Rightarrow> string" where
  "send_simple_response status reason b =
     ''HTTP/1.1 '' @ show_int status @ '' '' @ reason @ crlf
     @ kHeaderName @ '': '' @ kHeaderValue @ crlf
     @ ''Content-Type: text/plain; charset=utf-8'' @ crlf
     @ ''Content-Length: '' @ show_nat (length b) @ crlf
     @ ''Connection: close'' @ crlf @ crlf
     @ b"

text \<open>What an iteration of the loop of \<^verbatim>\<open>handle_client\<close> does next: \<open>Break\<close> leaves the
  loop (the client socket is closed), \<open>Continue\<close> reads the next request, and
  \<open>Forward host port\<close> goes on to the upstream with the parsed target.\<close>

datatype next_step = Break | Continue | Forward string int

text \<open>Lines 1117 to 1123: the request could not be read. The result is what is handed
  to \<^verbatim>\<open>send_all\<close> on the client socket (nothing when empty) and the next step.\<close>

definition handle_parse_error :: "string \<Rightarrow> string \<times> next_step" where
  "handle_parse_error parse_error =
     (if parse_error \<noteq> [] \<and> parse_error \<noteq> ''client closed before request''
         \<and> parse_error \<noteq> ''client closed connection''
      then (send_simple_response 400 ''Bad Request'' (parse_error @ [LF]), Break)
      else ([], Break))"

definition health_response :: "Globals \<Rightarrow> Request \<Rightarrow> string" where
  "health_response g req =
     (let body_s =
            ''ok active_clients='' @ show_int (g_active_clients g)
            @ '' overload_rejections='' @ show_nat (g_overload_rejections g)
            @ '' max_active_clients='' @ show_int (g_max_active_clients g)
            @ '' upstream_connect_timeout_ms='' @ show_int (g_upstream_connect_timeout_ms g)
            @ '' upstream_io_timeout_ms='' @ show_int (g_upstream_io_timeout_ms g)
            @ '' client_io_timeout_ms='' @ show_int (g_client_io_timeout_ms g)
            @ '' pool_max_idle_per_key='' @ show_nat (g_pool_max_idle_per_key g)
            @ '' pool_max_idle_total='' @ show_nat (g_pool_max_idle_total g)
            @ '' pool_idle_timeout_ms='' @ show_int (g_pool_idle_timeout g)
            @ '' pool_max_age_ms='' @ show_int (g_pool_max_age g)
            @ [LF]
      in ''HTTP/1.1 200 OK'' @ crlf
         @ kHeaderName @ '': '' @ kHeaderValue @ crlf
         @ ''Content-Type: text/plain; charset=utf-8'' @ crlf
         @ ''Content-Length: '' @ show_nat (length body_s) @ crlf
         @ ''Connection: '' @ (if client_wants_keepalive req then ''keep-alive'' else ''close'')
         @ crlf @ crlf
         @ body_s)"

text \<open>\<^verbatim>\<open>RouteTable::lookup\<close> on the map that \<^verbatim>\<open>reload_if_needed\<close> has left in memory.\<close>

definition lookup :: "(string \<rightharpoonup> string) \<Rightarrow> string \<Rightarrow> string option" where
  "lookup routes host = routes (to_lower host)"

text \<open>Lines 1125 to 1172: a request has been read. \<open>send_ok\<close> is what \<^verbatim>\<open>send_all\<close> returns
  for the health response.\<close>

definition handle_request ::
  "Globals \<Rightarrow> (string \<rightharpoonup> string) \<Rightarrow> bool \<Rightarrow> Request \<Rightarrow> string \<times> next_step" where
  "handle_request g routes send_ok req =
     (if path req = ''/_flow/domains/health'' then
        (health_response g req,
         if \<not> send_ok \<or> \<not> client_wants_keepalive req then Break else Continue)
      else if normalized_host req = [] then
        (send_simple_response 400 ''Bad Request'' (''Missing Host header'' @ [LF]), Break)
      else
        (case lookup routes (normalized_host req) of
           None \<Rightarrow>
             (send_simple_response 404 ''Not Found''
                (''No local route configured for '' @ normalized_host req @ [LF]), Break)
         | Some target \<Rightarrow>
             (case parse_host_port target of
                None \<Rightarrow>
                  (send_simple_response 502 ''Bad Gateway'' (''Invalid target route'' @ [LF]), Break)
              | Some (upstream_host, upstream_port) \<Rightarrow>
                  ([], Forward upstream_host upstream_port))))"

text \<open>One iteration, from \<^verbatim>\<open>read_request\<close> to the route target. \<open>None\<close>: the iteration does
  not get past \<^verbatim>\<open>read_request\<close>, which does not return or ends the process.\<close>

definition handle_client_iteration ::
  "(nat \<Rightarrow> bool) \<Rightarrow> Globals \<Rightarrow> (string \<rightharpoonup> string) \<Rightarrow> bool \<Rightarrow> string
     \<Rightarrow> recv_result list \<Rightarrow> (string \<times> next_step) option" where
  "handle_client_iteration can_reserve g routes send_ok pending es =
     (case read_request can_reserve pending es of
        None \<Rightarrow> None
      | Some (Inl Terminated, es') \<Rightarrow> None
      | Some (Inl (Failed parse_error), es') \<Rightarrow> Some (handle_parse_error parse_error)
      | Some (Inr req, es') \<Rightarrow> Some (handle_request g routes send_ok req))"

section \<open>Upstream responses\<close>

record ResponseMeta =
  status_code :: int
  resp_chunked :: bool
  connection_close :: bool
  no_body :: bool
  content_length :: "nat option"

definition ResponseMeta0 :: ResponseMeta where
  "ResponseMeta0 = \<lparr> status_code = 0, resp_chunked = False, connection_close = False,
                      no_body = False, content_length = None \<rparr>"

text \<open>\<^verbatim>\<open>stream >> int\<close>: white space is skipped, a sign is optional, the digits are read;
  it fails when there is no digit or the value does not fit a 32-bit \<^verbatim>\<open>int\<close>.\<close>

definition extract_int :: "string \<Rightarrow> int option" where
  "extract_int s =
     (case strto 10 s of
        None \<Rightarrow> None
      | Some (neg, m) \<Rightarrow>
          (let v = (if neg then - int m else int m)
           in if v < - (2 ^ 31) \<or> 2 ^ 31 - 1 < v then None else Some v))"

text \<open>The header loop of \<^verbatim>\<open>parse_response_headers\<close>; \<open>None\<close> is \<^verbatim>\<open>return false\<close>.\<close>

function parse_response_header_lines :: "string \<Rightarrow> ResponseMeta \<Rightarrow> ResponseMeta option" where
  "parse_response_header_lines s out =
     (case getline s of
        None \<Rightarrow> Some out
      | Some (line0, rest) \<Rightarrow>
          (let line = strip_cr line0
           in if line = [] then Some out
              else (case find_char CHR '':'' line of
                      None \<Rightarrow> parse_response_header_lines rest out
                    | Some pos \<Rightarrow>
                        (let key = to_lower (trim (substr line 0 pos));
                             val = to_lower (trim (drop (pos + 1) line))
                         in if key = ''transfer-encoding'' \<and> find_str ''chunked'' val \<noteq> None
                            then parse_response_header_lines rest (out\<lparr>resp_chunked := True\<rparr>)
                            else if key = ''content-length''
                            then (case stoull 10 val of
                                    None \<Rightarrow> None
                                  | Some n \<Rightarrow>
                                      parse_response_header_lines rest
                                        (out\<lparr>content_length := Some n\<rparr>))
                            else if key = ''connection'' \<and> find_str ''close'' val \<noteq> None
                            then parse_response_header_lines rest (out\<lparr>connection_close := True\<rparr>)
                            else parse_response_header_lines rest out))))"
  by pat_completeness auto
termination
  by (relation "measure (\<lambda>(s, out). length s)") (auto dest: getline_shorter)

declare parse_response_header_lines.simps [simp del]

definition parse_response_headers :: "string \<Rightarrow> string \<Rightarrow> ResponseMeta option" where
  "parse_response_headers raw_headers req_method =
     (case getline raw_headers of
        None \<Rightarrow> None
      | Some (line0, rest) \<Rightarrow>
          (case extract_word (strip_cr line0) of
             None \<Rightarrow> None
           | Some (http_version, r1) \<Rightarrow>
               (case extract_int r1 of
                  None \<Rightarrow> None
                | Some code \<Rightarrow>
                    (case parse_response_header_lines rest (ResponseMeta0\<lparr>status_code := code\<rparr>) of
                       None \<Rightarrow> None
                     | Some out \<Rightarrow>
                         (let m = to_lower req_method;
                              informational =
                                (100 \<le> status_code out \<and> status_code out < 200
                                   \<and> status_code out \<noteq> 101);
                              nb = (m = ''head'' \<or> informational \<or> status_code out = 204
                                      \<or> status_code out = 304)
                          in Some (if nb
                                   then out\<lparr>no_body := True, resp_chunked := False,
                                            content_length := Some 0\<rparr>
                                   else out\<lparr>no_body := False\<rparr>))))))"

text \<open>
  The client socket on the sending side: \<open>tx_ok\<close> lists what the next calls of
  \<^verbatim>\<open>send_all\<close> with some data return (they succeed once the list is used up), and \<open>tx\<close>
  holds the data of the calls that succeeded. A call with no data sends nothing and
  returns \<^verbatim>\<open>true\<close>.
\<close>

record client =
  tx_ok :: "bool list"
  tx :: string

definition send_all :: "string \<Rightarrow> client \<Rightarrow> bool \<times> client" where
  "send_all data cl =
     (if data = [] then (True, cl)
      else (case tx_ok cl of
              [] \<Rightarrow> (True, cl\<lparr>tx := tx cl @ data\<rparr>)
            | ok # oks \<Rightarrow>
                if ok then (True, cl\<lparr>tx_ok := oks, tx := tx cl @ data\<rparr>)
                else (False, cl\<lparr>tx_ok := oks\<rparr>)))"

fun recv_append_upstream :: "string \<Rightarrow> recv_result list \<Rightarrow> string option \<times> recv_result list" where
  "recv_append_upstream buf [] = (None, [])"
| "recv_append_upstream buf (Recv_eof # es) = (None, es)"
| "recv_append_upstream buf (Recv_eintr # es) = recv_append_upstream buf es"
| "recv_append_upstream buf (Recv_error m # es) = (None, es)"
| "recv_append_upstream buf (Recv_data c cs # es) = (Some (buf @ c # cs), es)"

lemma recv_append_upstream_shorter:
  "recv_append_upstream buf es = (Some buf', es') \<Longrightarrow> length es' < length es"
  by (induction buf es rule: recv_append_upstream.induct) auto

text \<open>The receive loop of \<^verbatim>\<open>relay_body_with_length\<close>.\<close>

fun relay_length_loop ::
  "nat \<Rightarrow> nat \<Rightarrow> recv_result list \<Rightarrow> client \<Rightarrow> bool \<times> recv_result list \<times> client" where
  "relay_length_loop sent body_len es cl =
     (if sent < body_len then
        (case es of
           [] \<Rightarrow> (False, [], cl)
         | Recv_eof # es' \<Rightarrow> (False, es', cl)
         | Recv_eintr # es' \<Rightarrow> relay_length_loop sent body_len es' cl
         | Recv_error m # es' \<Rightarrow> (False, es', cl)
         | Recv_data c cs # es' \<Rightarrow>
             (let n = length (c # cs);
                  to_send = min n (body_len - sent)
              in case send_all (take to_send (c # cs)) cl of
                   (False, cl') \<Rightarrow> (False, es', cl')
                 | (True, cl') \<Rightarrow>
                     if to_send < n then (False, es', cl')
                     else relay_length_loop (sent + to_send) body_len es' cl'))
      else (True, es, cl))"

declare relay_length_loop.simps [simp del]

definition relay_body_with_length ::
  "string \<Rightarrow> nat \<Rightarrow> recv_result list \<Rightarrow> client \<Rightarrow> bool \<times> recv_result list \<times> client" where
  "relay_body_with_length body_buf body_len es cl =
     (if body_buf \<noteq> [] then
        (let first = min (length body_buf) body_len
         in case (if 0 < first then send_all (take first body_buf) cl else (True, cl)) of
              (False, cl') \<Rightarrow> (False, es, cl')
            | (True, cl') \<Rightarrow>
                if body_len < length body_buf then (False, es, cl')
                else relay_length_loop first body_len es cl')
      else relay_length_loop 0 body_len es cl)"

text \<open>\<^verbatim>\<open>while (buf.size() < need) recv_append_upstream\<close>, and the loop that looks for the
  end of the trailers.\<close>

function fill_upstream ::
  "string \<Rightarrow> nat \<Rightarrow> recv_result list \<Rightarrow> string option \<times> recv_result list" where
  "fill_upstream buf need es =
     (if length buf < need then
        (case recv_append_upstream buf es of
           (None, es') \<Rightarrow> (None, es')
         | (Some buf', es') \<Rightarrow> fill_upstream buf' need es')
      else (Some buf, es))"
  by pat_completeness auto
termination
  by (relation "measure (\<lambda>(buf, need, es). length es)")
    (auto dest: recv_append_upstream_shorter [OF sym])

declare fill_upstream.simps [simp del]

function find_trailer_end ::
  "string \<Rightarrow> nat \<Rightarrow> recv_result list \<Rightarrow> (nat \<times> string) option \<times> recv_result list" where
  "find_trailer_end buf cursor es =
     (case find_from crlfcrlf buf cursor of
        Some trailer_end \<Rightarrow> (Some (trailer_end, buf), es)
      | None \<Rightarrow>
          (case recv_append_upstream buf es of
             (None, es') \<Rightarrow> (None, es')
           | (Some buf', es') \<Rightarrow> find_trailer_end buf' cursor es'))"
  by pat_completeness auto
termination
  by (relation "measure (\<lambda>(buf, cursor, es). length es)")
    (auto dest: recv_append_upstream_shorter [OF sym])

declare find_trailer_end.simps [simp del]

text \<open>How a call ends: it returns, an exception that nothing catches leaves it (the
  process terminates), or it reads outside the buffer and what it does is undefined.\<close>

datatype 'a call = Returned 'a | Thrown | Undefined

text \<open>
  The chunk loop of \<^verbatim>\<open>relay_chunked_body\<close>. The sums of \<^verbatim>\<open>size_t\<close> values wrap at
  \<open>2^64\<close>. \<^verbatim>\<open>buf.substr\<close> throws when its position is beyond the buffer; when the end of
  a chunk has wrapped below the cursor, the length handed to \<^verbatim>\<open>send_all\<close> wraps too and
  the read leaves the buffer. \<open>None\<close> is a call that does not return.
\<close>

partial_function (option) relay_chunks ::
  "string \<Rightarrow> nat \<Rightarrow> recv_result list \<Rightarrow> client
     \<Rightarrow> (bool call \<times> recv_result list \<times> client) option" where
  "relay_chunks buf cursor es cl =
     (case find_from crlf buf cursor of
        None \<Rightarrow>
          (case recv_append_upstream buf es of
             (None, es') \<Rightarrow> Some (Returned False, es', cl)
           | (Some buf', es') \<Rightarrow> relay_chunks buf' cursor es' cl)
      | Some line_end \<Rightarrow>
          (let line = trim (substr buf cursor (line_end - cursor));
               size_str = (case find_char CHR '';'' line of None \<Rightarrow> line | Some semi \<Rightarrow> take semi line)
           in case stoull 16 size_str of
                None \<Rightarrow> Some (Returned False, es, cl)
              | Some chunk_size \<Rightarrow>
                  (let chunk_prefix = line_end + 2;
                       chunk_end = (chunk_prefix + chunk_size + 2) mod 2 ^ 64
                   in case fill_upstream buf chunk_end es of
                        (None, es') \<Rightarrow> Some (Returned False, es', cl)
                      | (Some buf', es') \<Rightarrow>
                          (let term_pos = (chunk_prefix + chunk_size) mod 2 ^ 64
                           in if length buf' < term_pos then Some (Thrown, es', cl)
                              else if substr buf' term_pos 2 \<noteq> crlf then Some (Returned False, es', cl)
                              else if chunk_end < cursor then Some (Undefined, es', cl)
                              else (case send_all (substr buf' cursor (chunk_end - cursor)) cl of
                                      (sent, cl') \<Rightarrow>
                                        if \<not> sent then Some (Returned False, es', cl')
                                        else if chunk_size = 0 then
                                          (case find_trailer_end buf' chunk_end es' of
                                             (None, es'') \<Rightarrow> Some (Returned False, es'', cl')
                                           | (Some (trailer_end, buf''), es'') \<Rightarrow>
                                               (let end_pos = trailer_end + 4
                                                in case send_all (substr buf'' chunk_end (end_pos - chunk_end)) cl' of
                                                     (sent', cl'') \<Rightarrow>
                                                       if \<not> sent' then Some (Returned False, es'', cl'')
                                                       else Some (Returned (end_pos = length buf''), es'', cl'')))
                                        else relay_chunks buf' chunk_end es' cl')))))"

definition relay_chunked_body ::
  "string \<Rightarrow> recv_result list \<Rightarrow> client \<Rightarrow> (bool call \<times> recv_result list \<times> client) option" where
  "relay_chunked_body buf es cl = relay_chunks buf 0 es cl"

record RelayOutcome =
  upstream_reusable :: bool
  client_can_keepalive :: bool

definition RelayOutcome0 :: RelayOutcome where
  "RelayOutcome0 = \<lparr> upstream_reusable = False, client_can_keepalive = False \<rparr>"

text \<open>The head loop of \<^verbatim>\<open>relay_response_and_decide_reuse\<close>; \<open>None\<close> is \<^verbatim>\<open>return {}\<close>.\<close>

function read_response_head ::
  "string \<Rightarrow> recv_result list \<Rightarrow> (nat \<times> string) option \<times> recv_result list" where
  "read_response_head buf es =
     (case find_str crlfcrlf buf of
        Some header_end \<Rightarrow> (Some (header_end, buf), es)
      | None \<Rightarrow>
          (case recv_append_upstream buf es of
             (None, es') \<Rightarrow> (None, es')
           | (Some buf', es') \<Rightarrow>
               if kMaxHeaderBytes < length buf' then (None, es')
               else read_response_head buf' es'))"
  by pat_completeness auto
termination
  by (relation "measure (\<lambda>(buf, es). length es)")
    (auto dest: recv_append_upstream_shorter [OF sym])

declare read_response_head.simps [simp del]

text \<open>The loop for a body without declared framing: everything is forwarded until the
  upstream closes.\<close>

fun relay_until_eof :: "recv_result list \<Rightarrow> client \<Rightarrow> recv_result list \<times> client" where
  "relay_until_eof [] cl = ([], cl)"
| "relay_until_eof (Recv_eof # es) cl = (es, cl)"
| "relay_until_eof (Recv_eintr # es) cl = relay_until_eof es cl"
| "relay_until_eof (Recv_error m # es) cl = (es, cl)"
| "relay_until_eof (Recv_data c cs # es) cl =
     (case send_all (c # cs) cl of
        (False, cl') \<Rightarrow> (es, cl')
      | (True, cl') \<Rightarrow> relay_until_eof es cl')"

text \<open>Lines 1040 to 1092 of \<^verbatim>\<open>relay_response_and_decide_reuse\<close>: the head has been
  forwarded, \<open>body_buf\<close> is what followed it in the buffer.\<close>

definition relay_body ::
  "ResponseMeta \<Rightarrow> string \<Rightarrow> recv_result list \<Rightarrow> client
     \<Rightarrow> (RelayOutcome call \<times> recv_result list \<times> client) option" where
  "relay_body meta body_buf es cl =
     (if no_body meta then
        (if body_buf \<noteq> [] then
           (case send_all body_buf cl of (ok, cl') \<Rightarrow> Some (Returned RelayOutcome0, es, cl'))
         else Some (Returned \<lparr> upstream_reusable = \<not> connection_close meta,
                                client_can_keepalive = \<not> connection_close meta \<rparr>, es, cl))
      else if resp_chunked meta then
        (case relay_chunked_body body_buf es cl of
           None \<Rightarrow> None
         | Some (Returned complete, es', cl') \<Rightarrow>
             (let keepalive = (complete \<and> \<not> connection_close meta)
              in Some (Returned \<lparr> upstream_reusable = keepalive,
                                   client_can_keepalive = keepalive \<rparr>, es', cl'))
         | Some (Thrown, es', cl') \<Rightarrow> Some (Thrown, es', cl')
         | Some (Undefined, es', cl') \<Rightarrow> Some (Undefined, es', cl'))
      else (case content_length meta of
              Some body_len \<Rightarrow>
                (case relay_body_with_length body_buf body_len es cl of
                   (ok, es', cl') \<Rightarrow>
                     (let keepalive = (ok \<and> \<not> connection_close meta)
                      in Some (Returned \<lparr> upstream_reusable = keepalive,
                                           client_can_keepalive = keepalive \<rparr>, es', cl')))
            | None \<Rightarrow>
                (case (if body_buf \<noteq> [] then send_all body_buf cl else (True, cl)) of
                   (False, cl') \<Rightarrow> Some (Returned RelayOutcome0, es, cl')
                 | (True, cl') \<Rightarrow>
                     (case relay_until_eof es cl' of
                        (es', cl'') \<Rightarrow> Some (Returned RelayOutcome0, es', cl'')))))"

definition relay_response_and_decide_reuse ::
  "recv_result list \<Rightarrow> client \<Rightarrow> string
     \<Rightarrow> (RelayOutcome call \<times> recv_result list \<times> client) option" where
  "relay_response_and_decide_reuse es cl req_method =
     (case read_response_head [] es of
        (None, es') \<Rightarrow> Some (Returned RelayOutcome0, es', cl)
      | (Some (header_end, buf), es') \<Rightarrow>
          (let hdr_len = header_end + 4;
               raw_headers = substr buf 0 hdr_len
           in case parse_response_headers raw_headers req_method of
                None \<Rightarrow> Some (Returned RelayOutcome0, es', cl)
              | Some meta \<Rightarrow>
                  (case send_all raw_headers cl of
                     (False, cl') \<Rightarrow> Some (Returned RelayOutcome0, es', cl')
                   | (True, cl') \<Rightarrow> relay_body meta (drop hdr_len buf) es' cl')))"

text \<open>
  Lines 1242 to 1256 of \<^verbatim>\<open>handle_client\<close>, after the relay: the upstream is kept in the
  client's cache or discarded, and the loop goes on only when the client asked for
  keep-alive and the relay allows it. The result is the cache \<open>(fd, key)\<close>, the
  descriptors closed, and the next step.
\<close>

definition handle_client_after_relay ::
  "bool \<Rightarrow> int \<Rightarrow> string \<Rightarrow> int \<times> string \<Rightarrow> bool \<Rightarrow> RelayOutcome
     \<Rightarrow> (int \<times> string) \<times> int list \<times> next_step" where
  "handle_client_after_relay used_cached upstream_fd upstream_key cached wants_keepalive relay =
     (let (cached', closed) =
            (if upstream_reusable relay then ((upstream_fd, upstream_key), [])
             else (if used_cached then (- 1, []) else cached,
                   if 0 \<le> upstream_fd then [upstream_fd] else []))
      in (cached', closed,
          if \<not> (wants_keepalive \<and> client_can_keepalive relay) then Break else Continue))"

section \<open>The upstream pool\<close>

text \<open>Times are readings of the steady clock in nanoseconds; the two timeouts are kept
  in milliseconds, as \<^verbatim>\<open>g_pool_idle_timeout\<close> and \<^verbatim>\<open>g_pool_max_age\<close> are.\<close>

record PooledConn =
  fd :: int
  created_at :: int
  last_used_at :: int

text \<open>\<^verbatim>\<open>by_key_\<close> is kept as the list of its entries; the place of an entry in the list
  has no meaning. \<^verbatim>\<open>idle_total_\<close> is a \<^verbatim>\<open>size_t\<close>.\<close>

record UpstreamPool =
  by_key :: "(string \<times> PooledConn list) list"
  idle_total :: nat

definition UpstreamPool0 :: UpstreamPool where
  "UpstreamPool0 = \<lparr> by_key = [], idle_total = 0 \<rparr>"

text \<open>
  The pool together with what is outside it: \<open>world\<close> is the state of the sockets and
  of the network, of any type, \<open>closed\<close> lists the descriptors closed so far, and \<open>walks\<close>
  counts the walks of \<^verbatim>\<open>by_key_\<close> made so far. The parameter \<open>usable\<close> of the operations is
  \<^verbatim>\<open>socket_is_idle_usable\<close> run on a descriptor in a world, \<open>connect\<close> is
  \<^verbatim>\<open>connect_upstream\<close>; both give the world after the call.
\<close>

record 'w pool_state =
  pool :: UpstreamPool
  world :: 'w
  closed :: "int list"
  walks :: nat

definition is_conn_fresh :: "Globals \<Rightarrow> int \<Rightarrow> PooledConn \<Rightarrow> bool" where
  "is_conn_fresh g now conn =
     (if g_pool_idle_timeout g * 1000000 < now - last_used_at conn then False
      else if g_pool_max_age g * 1000000 < now - created_at conn then False
      else True)"

text \<open>The inner loop of \<^verbatim>\<open>reap_locked\<close> on the connections of one key. The accumulator
  is \<^verbatim>\<open>idle_total_\<close>, the world and the descriptors closed.\<close>

fun reap_conns ::
  "('w \<Rightarrow> int \<Rightarrow> bool \<times> 'w) \<Rightarrow> Globals \<Rightarrow> int \<Rightarrow> PooledConn list \<Rightarrow> nat \<times> 'w \<times> int list
     \<Rightarrow> PooledConn list \<times> nat \<times> 'w \<times> int list" where
  "reap_conns usable g now [] acc = ([], acc)"
| "reap_conns usable g now (c # cs) (idle, w, cl) =
     (if \<not> is_conn_fresh g now c then
        reap_conns usable g now cs ((if 0 < idle then idle - 1 else 0), w, cl @ [fd c])
      else (case usable w (fd c) of
              (ok, w') \<Rightarrow>
                if \<not> ok then
                  reap_conns usable g now cs ((if 0 < idle then idle - 1 else 0), w', cl @ [fd c])
                else (case reap_conns usable g now cs (idle, w', cl) of
                        (kept, acc) \<Rightarrow> (c # kept, acc))))"

fun reap_keys ::
  "('w \<Rightarrow> int \<Rightarrow> bool \<times> 'w) \<Rightarrow> Globals \<Rightarrow> int \<Rightarrow> (string \<times> PooledConn list) list
     \<Rightarrow> nat \<times> 'w \<times> int list \<Rightarrow> (string \<times> PooledConn list) list \<times> nat \<times> 'w \<times> int list" where
  "reap_keys usable g now [] acc = ([], acc)"
| "reap_keys usable g now ((k, conns) # rest) acc =
     (case reap_conns usable g now conns acc of
        (kept, acc') \<Rightarrow>
          (case reap_keys usable g now rest acc' of
             (rest', acc'') \<Rightarrow> (if kept = [] then rest' else (k, kept) # rest', acc'')))"

text \<open>
  The order in which a \<^verbatim>\<open>std::unordered_map\<close> is walked is left open by the language; it
  depends on the hash values, on the number of buckets and on the insertions and
  erasures made before (libstdc++ puts a key that falls into an empty bucket first).
  The parameter \<open>rank\<close> stands for it: \<open>rank n k\<close> is the place of the key \<open>k\<close> in the walk
  number \<open>n\<close>, and \<^verbatim>\<open>reap_locked\<close> visits the entries by increasing rank. Every order of
  every walk is the one of some \<open>rank\<close>.
\<close>

definition walk ::
  "(string \<Rightarrow> nat) \<Rightarrow> (string \<times> PooledConn list) list
     \<Rightarrow> (string \<times> PooledConn list) list" where
  "walk place bk = sort_key (\<lambda>e. place (fst e)) bk"

definition reap_locked ::
  "('w \<Rightarrow> int \<Rightarrow> bool \<times> 'w) \<Rightarrow> (nat \<Rightarrow> string \<Rightarrow> nat) \<Rightarrow> Globals \<Rightarrow> int
     \<Rightarrow> 'w pool_state \<Rightarrow> 'w pool_state" where
  "reap_locked usable rank g now st =
     (case reap_keys usable g now (walk (rank (walks st)) (by_key (pool st)))
             (idle_total (pool st), world st, closed st) of
        (bk, idle, w, cl) \<Rightarrow>
          \<lparr> pool = \<lparr> by_key = bk, idle_total = idle \<rparr>, world = w, closed = cl,
            walks = walks st + 1 \<rparr>)"

text \<open>The loop of \<^verbatim>\<open>acquire\<close> that pops connections from the tail.\<close>

function pop_usable ::
  "('w \<Rightarrow> int \<Rightarrow> bool \<times> 'w) \<Rightarrow> Globals \<Rightarrow> int \<Rightarrow> PooledConn list \<Rightarrow> nat \<times> 'w \<times> int list
     \<Rightarrow> int option \<times> PooledConn list \<times> nat \<times> 'w \<times> int list" where
  "pop_usable usable g now conns (idle, w, cl) =
     (if conns = [] then (None, [], idle, w, cl)
      else (let conn = last conns;
                conns' = butlast conns;
                idle' = (if 0 < idle then idle - 1 else 0)
            in if \<not> is_conn_fresh g now conn
               then pop_usable usable g now conns' (idle', w, cl @ [fd conn])
               else (case usable w (fd conn) of
                       (ok, w') \<Rightarrow>
                         if \<not> ok then pop_usable usable g now conns' (idle', w', cl @ [fd conn])
                         else (Some (fd conn), conns', idle', w', cl))))"
  by pat_completeness auto
termination
  by (relation "measure (\<lambda>(usable, g, now, conns, acc). length conns)") auto

declare pop_usable.simps [simp del]

text \<open>Assignment to the entry of a key, which is added when the map has none.\<close>

fun set_conns ::
  "string \<Rightarrow> PooledConn list \<Rightarrow> (string \<times> PooledConn list) list
     \<Rightarrow> (string \<times> PooledConn list) list" where
  "set_conns k v [] = [(k, v)]"
| "set_conns k v ((k', v') # rest) =
     (if k' = k then (k, v) # rest else (k', v') # set_conns k v rest)"

definition acquire ::
  "('w \<Rightarrow> int \<Rightarrow> bool \<times> 'w) \<Rightarrow> ('w \<Rightarrow> string \<Rightarrow> int \<Rightarrow> int \<times> 'w)
     \<Rightarrow> (nat \<Rightarrow> string \<Rightarrow> nat) \<Rightarrow> Globals
     \<Rightarrow> string \<Rightarrow> string \<Rightarrow> int \<Rightarrow> int \<Rightarrow> 'w pool_state \<Rightarrow> int \<times> 'w pool_state" where
  "acquire usable connect rank g key host port now st =
     (let st1 = reap_locked usable rank g now st
      in case map_of (by_key (pool st1)) key of
           None \<Rightarrow>
             (case connect (world st1) host port of (new_fd, w') \<Rightarrow> (new_fd, st1\<lparr>world := w'\<rparr>))
         | Some conns \<Rightarrow>
             (case pop_usable usable g now conns (idle_total (pool st1), world st1, closed st1) of
                (found, conns', idle, w, cl) \<Rightarrow>
                  (let st2 = \<lparr> pool = \<lparr> by_key = set_conns key conns' (by_key (pool st1)),
                                         idle_total = idle \<rparr>,
                               world = w, closed = cl, walks = walks st1 \<rparr>
                   in case found of
                        Some pooled_fd \<Rightarrow> (pooled_fd, st2)
                      | None \<Rightarrow>
                          (case connect w host port of
                             (new_fd, w') \<Rightarrow> (new_fd, st2\<lparr>world := w'\<rparr>)))))"

definition release ::
  "('w \<Rightarrow> int \<Rightarrow> bool \<times> 'w) \<Rightarrow> (nat \<Rightarrow> string \<Rightarrow> nat) \<Rightarrow> Globals
     \<Rightarrow> string \<Rightarrow> int \<Rightarrow> int \<Rightarrow> 'w pool_state \<Rightarrow> 'w pool_state" where
  "release usable rank g key sock now st =
     (if sock < 0 then st
      else (case usable (world st) sock of
              (ok, w1) \<Rightarrow>
                if \<not> ok then st\<lparr>world := w1, closed := closed st @ [sock]\<rparr>
                else (let st1 = reap_locked usable rank g now (st\<lparr>world := w1\<rparr>)
                      in if g_pool_max_idle_total g \<le> idle_total (pool st1)
                         then st1\<lparr>closed := closed st1 @ [sock]\<rparr>
                         else (let conns = (case map_of (by_key (pool st1)) key of
                                              None \<Rightarrow> []
                                            | Some cs \<Rightarrow> cs)
                               in if g_pool_max_idle_per_key g \<le> length conns
                                  then st1\<lparr>pool := (pool st1)
                                             \<lparr>by_key := set_conns key conns (by_key (pool st1))\<rparr>,
                                           closed := closed st1 @ [sock]\<rparr>
                                  else st1\<lparr>pool :=
                                             \<lparr> by_key =
                                                 set_conns key
                                                   (conns @ [\<lparr> fd = sock, created_at = now,
                                                                last_used_at = now \<rparr>])
                                                   (by_key (pool st1)),
                                               idle_total =
                                                 (idle_total (pool st1) + 1) mod 2 ^ 64 \<rparr>\<rparr>))))"

text \<open>A call of the pool, with the clock reading it takes, and a run of calls.\<close>

datatype pool_op = Acquire string string int int | Release string int int

fun pool_step ::
  "('w \<Rightarrow> int \<Rightarrow> bool \<times> 'w) \<Rightarrow> ('w \<Rightarrow> string \<Rightarrow> int \<Rightarrow> int \<times> 'w)
     \<Rightarrow> (nat \<Rightarrow> string \<Rightarrow> nat) \<Rightarrow> Globals
     \<Rightarrow> pool_op \<Rightarrow> 'w pool_state \<Rightarrow> 'w pool_state" where
  "pool_step usable connect rank g (Acquire key host port now) st =
     snd (acquire usable connect rank g key host port now st)"
| "pool_step usable connect rank g (Release key sock now) st =
     release usable rank g key sock now st"

fun run_ops ::
  "('w \<Rightarrow> int \<Rightarrow> bool \<times> 'w) \<Rightarrow> ('w \<Rightarrow> string \<Rightarrow> int \<Rightarrow> int \<times> 'w)
     \<Rightarrow> (nat \<Rightarrow> string \<Rightarrow> nat) \<Rightarrow> Globals
     \<Rightarrow> pool_op list \<Rightarrow> 'w pool_state \<Rightarrow> 'w pool_state" where
  "run_ops usable connect rank g [] st = st"
| "run_ops usable connect rank g (op # ops) st =
     run_ops usable connect rank g ops (pool_step usable connect rank g op st)"

section \<open>Vocabulary of the properties\<close>

text \<open>\<open>nd\<close> occurs in \<open>hay\<close> as a substring.\<close>

definition occurs_in :: "string \<Rightarrow> string \<Rightarrow> bool" where
  "occurs_in nd hay = (\<exists>a b. hay = a @ nd @ b)"

text \<open>The tokens of a line: its maximal runs of characters that are not white space.\<close>

fun split_ws :: "string \<Rightarrow> string \<Rightarrow> string list" where
  "split_ws cur [] = (if cur = [] then [] else [cur])"
| "split_ws cur (c # cs) =
     (if isspace c then (if cur = [] then split_ws [] cs else cur # split_ws [] cs)
      else split_ws (cur @ [c]) cs)"

definition ws_tokens :: "string \<Rightarrow> string list" where
  "ws_tokens s = split_ws [] s"

text \<open>A request line of exactly the form \<^verbatim>\<open>METHOD SP PATH SP VERSION\<close>.\<close>

definition exact_request_line :: "string \<Rightarrow> bool" where
  "exact_request_line line =
     (case ws_tokens line of
        [m, p, v] \<Rightarrow> line = m @ '' '' @ p @ '' '' @ v
      | _ \<Rightarrow> False)"

text \<open>A port written as decimal digits only, with a value from 1 to 65535.\<close>

definition well_formed_port :: "string \<Rightarrow> bool" where
  "well_formed_port s =
     (s \<noteq> [] \<and> list_all (is_digit 10) s \<and> 1 \<le> digits_val 10 s \<and> digits_val 10 s \<le> 65535)"

text \<open>The tunables as \<^verbatim>\<open>main\<close> leaves them when no option is given, with no client yet.\<close>

definition default_globals :: Globals where
  "default_globals =
     \<lparr> g_active_clients = 0, g_overload_rejections = 0, g_max_active_clients = 128,
       g_upstream_connect_timeout_ms = 10000, g_upstream_io_timeout_ms = 15000,
       g_client_io_timeout_ms = 30000, g_pool_max_idle_per_key = 8,
       g_pool_max_idle_total = 256, g_pool_idle_timeout = 15000, g_pool_max_age = 120000 \<rparr>"

text \<open>The error texts of \<^verbatim>\<open>recv_append\<close>, of the chunked decoder, and of
  \<^verbatim>\<open>read_request\<close> as a whole.\<close>

definition recv_error :: "string \<Rightarrow> bool" where
  "recv_error e = (e = ''client closed connection'' \<or> (\<exists>m. e = ''recv failed: '' @ m))"

definition chunk_error :: "string \<Rightarrow> bool" where
  "chunk_error e =
     (recv_error e \<or> e = ''invalid chunk size'' \<or> e = ''invalid chunk terminator'')"

definition body_error :: "string \<Rightarrow> bool" where
  "body_error e =
     (chunk_error e \<or> e = ''invalid content-length''
        \<or> e = ''client closed before full request body'')"

definition request_error :: "string \<Rightarrow> bool" where
  "request_error e =
     (body_error e \<or> e = ''request headers too large'' \<or> e = ''client closed before request''
        \<or> e = ''missing request line'' \<or> e = ''invalid request line'')"

text \<open>A process in which \<^verbatim>\<open>reserve\<close> returns for every length below \<open>2^62\<close>, the
  \<^verbatim>\<open>max_size()\<close> of a \<^verbatim>\<open>std::string\<close> of libstdc++ on a 64-bit target being \<open>2^62 - 1\<close>.\<close>

definition roomy :: "nat \<Rightarrow> bool" where
  "roomy n = (n < 2 ^ 62)"

text \<open>The lines of a text, each without the line feed that ends it.\<close>

fun split_lines_from :: "string \<Rightarrow> string \<Rightarrow> string list" where
  "split_lines_from cur [] = (if cur = [] then [] else [cur])"
| "split_lines_from cur (c # cs) =
     (if c = LF then cur # split_lines_from [] cs else split_lines_from (cur @ [c]) cs)"

definition split_lines :: "string \<Rightarrow> string list" where
  "split_lines s = split_lines_from [] s"

text \<open>The status code that the status line of a response head carries: the integer
  that \<^verbatim>\<open>std::stoi\<close> would read from the second token of the first line.\<close>

definition status_of :: "string \<Rightarrow> int option" where
  "status_of raw =
     (case ws_tokens (strip_cr (takeWhile (\<lambda>c. c \<noteq> LF) raw)) of
        v # code # rest \<Rightarrow> stoi code
      | _ \<Rightarrow> None)"

text \<open>The header lines of a response head: the lines after the status line, up to the
  first empty one. A line is a \<^verbatim>\<open>Content-Length\<close> header that cannot be converted when its
  name, trimmed and lowered, is \<^verbatim>\<open>content-length\<close> and \<^verbatim>\<open>std::stoull\<close> reads no number
  from its value.\<close>

definition response_header_lines :: "string \<Rightarrow> string list" where
  "response_header_lines raw = takeWhile (\<lambda>l. l \<noteq> []) (map strip_cr (tl (split_lines raw)))"

definition bad_length_line :: "string \<Rightarrow> bool" where
  "bad_length_line l =
     (case find_char CHR '':'' l of
        None \<Rightarrow> False
      | Some pos \<Rightarrow>
          to_lower (trim (substr l 0 pos)) = ''content-length''
            \<and> stoull 10 (to_lower (trim (drop (pos + 1) l))) = None)"

definition bad_content_length :: "string \<Rightarrow> bool" where
  "bad_content_length raw = list_ex bad_length_line (response_header_lines raw)"

text \<open>The two caps of the pool.\<close>

definition pool_within_caps :: "Globals \<Rightarrow> UpstreamPool \<Rightarrow> bool" where
  "pool_within_caps g p =
     (idle_total p \<le> g_pool_max_idle_total g
        \<and> (\<forall>(k, conns) \<in> set (by_key p). length conns \<le> g_pool_max_idle_per_key g))"

section \<open>Substring search\<close>

lemma take_eq_imp_append: "take (length nd) xs = nd \<Longrightarrow> \<exists>b. xs = nd @ b"
  by (metis append_take_drop_id)

lemma find_str_None_iff: "find_str nd hay = None \<longleftrightarrow> \<not> occurs_in nd hay"
proof (induction hay)
  case Nil
  then show ?case by (auto simp: occurs_in_def)
next
  case (Cons c cs)
  show ?case
  proof (cases "take (length nd) (c # cs) = nd")
    case True
    then obtain b where "c # cs = [] @ nd @ b"
      using take_eq_imp_append by fastforce
    then have "occurs_in nd (c # cs)"
      unfolding occurs_in_def by blast
    with True show ?thesis by simp
  next
    case False
    have "occurs_in nd (c # cs) \<longleftrightarrow> occurs_in nd cs"
    proof
      assume "occurs_in nd (c # cs)"
      then obtain a b where ab: "c # cs = a @ nd @ b"
        unfolding occurs_in_def by blast
      show "occurs_in nd cs"
      proof (cases a)
        case Nil
        with ab have "take (length nd) (c # cs) = nd" by simp
        with False show ?thesis by simp
      next
        case (Cons x a')
        with ab have "cs = a' @ nd @ b" by simp
        then show ?thesis unfolding occurs_in_def by blast
      qed
    next
      assume "occurs_in nd cs"
      then obtain a b where "cs = a @ nd @ b"
        unfolding occurs_in_def by blast
      then have "c # cs = (c # a) @ nd @ b" by simp
      then show "occurs_in nd (c # cs)"
        unfolding occurs_in_def by blast
    qed
    with False Cons.IH show ?thesis by simp
  qed
qed

text \<open>The definitions that a run of \<^verbatim>\<open>read_request\<close> on given bytes unfolds.\<close>

lemmas request_eval =
  read_request_def read_body_def parse_head_def getline_def crlf_def crlfcrlf_def LF_def CR_def
  strip_cr_def parse_request_line_def extract_word_def isspace_def substr_def Request0_def
  trim_def to_lower_def tolower_def stoul_def stoull_def strto_def is_digit_def digit_val_def
  digits_val_def kMaxHeaderBytes_def Let_def find_from_def decode_chunked_body_def
  decode_chunks.simps finish_request_def request_wants_keepalive_def strip_port_from_host_def
  ensure_bytes_available.simps consume_trailers.simps read_head.simps parse_header_lines.simps
  recv_body.simps roomy_def

section \<open>Keep-alive derivation\<close>

text \<open>
  C3, as the code has it: the version and the \<^verbatim>\<open>Connection\<close> value are compared after
  lowering their ASCII letters. The flag is true when the lowered version is
  \<^verbatim>\<open>http/1.1\<close> and the lowered \<^verbatim>\<open>Connection\<close> value does not contain \<^verbatim>\<open>close\<close>, true
  when the lowered version is \<^verbatim>\<open>http/1.0\<close> and the lowered \<^verbatim>\<open>Connection\<close> value contains
  \<^verbatim>\<open>keep-alive\<close>, and false in every other case.
\<close>

theorem keepalive_by_version:
  "request_wants_keepalive req \<longleftrightarrow>
     (to_lower (version req) = ''http/1.1''
        \<and> \<not> (\<exists>v. headers_lc req ''connection'' = Some v \<and> occurs_in ''close'' (to_lower v)))
     \<or> (to_lower (version req) = ''http/1.0''
        \<and> (\<exists>v. headers_lc req ''connection'' = Some v \<and> occurs_in ''keep-alive'' (to_lower v)))"
  by (cases "headers_lc req ''connection''")
    (auto simp: request_wants_keepalive_def Let_def find_str_None_iff)

theorem keepalive_by_version_witness:
  "request_wants_keepalive
     (Request0\<lparr>version := ''HTTP/1.0'', headers_lc := [''connection'' \<mapsto> ''Keep-Alive'']\<rparr>)"
proof -
  have "occurs_in ''keep-alive'' (to_lower ''Keep-Alive'')"
    unfolding occurs_in_def
    by (rule exI [of _ "[]"], rule exI [of _ "[]"]) (simp add: to_lower_def tolower_def)
  then show ?thesis
    using keepalive_by_version
      [of "Request0\<lparr>version := ''HTTP/1.0'', headers_lc := [''connection'' \<mapsto> ''Keep-Alive'']\<rparr>"]
    by (simp add: Request0_def to_lower_def tolower_def)
qed

text \<open>
  C3 as stated fails: the request line \<^verbatim>\<open>GET / http/1.1\<close> carries a version that is
  neither \<^verbatim>\<open>HTTP/1.1\<close> nor \<^verbatim>\<open>HTTP/1.0\<close>, and the derived flag is true.
\<close>

theorem keepalive_lowercase_version_counterexample:
  "''http/1.1'' \<noteq> ''HTTP/1.1'' \<and> ''http/1.1'' \<noteq> ''HTTP/1.0'' \<and>
   map_option (\<lambda>r. map_sum id (\<lambda>q. (version q, client_wants_keepalive q)) (fst r))
     (read_request roomy (''GET / http/1.1'' @ crlf @ crlf) []) = Some (Inr (''http/1.1'', True))"
  by (simp add: request_eval)

section \<open>The liveness probe\<close>

text \<open>
  C4, as the code has it: a peek that fails with \<^verbatim>\<open>EINTR\<close> is repeated, and the first
  peek that is not interrupted decides. The socket is not usable when that peek returns
  0 bytes, usable when it fails with \<^verbatim>\<open>EAGAIN\<close> or \<^verbatim>\<open>EWOULDBLOCK\<close>, not usable when a byte
  is pending, and not usable when it fails with any other error.
\<close>

theorem probe_first_uninterrupted:
  "socket_is_idle_usable rs =
     (case dropWhile (\<lambda>r. r = Peek_failed EINTR) rs of
        [] \<Rightarrow> None
      | Peeked n # rs' \<Rightarrow> Some False
      | Peek_failed e # rs' \<Rightarrow> Some (e = EAGAIN \<or> e = EWOULDBLOCK))"
  by (induction rs rule: socket_is_idle_usable.induct) auto

text \<open>
  C4 as stated fails: the first peek fails with \<^verbatim>\<open>EINTR\<close>, which is neither \<^verbatim>\<open>EAGAIN\<close> nor
  \<^verbatim>\<open>EWOULDBLOCK\<close>, and the socket is classified as usable.
\<close>

theorem probe_eintr_counterexample:
  "socket_is_idle_usable [Peek_failed EINTR, Peek_failed EAGAIN] = Some True"
  by simp

theorem probe_first_uninterrupted_witness:
  "socket_is_idle_usable [Peek_failed EINTR, Peek_failed (Other_errno 104)] = Some False"
  using probe_first_uninterrupted [of "[Peek_failed EINTR, Peek_failed (Other_errno 104)]"]
  by simp

section \<open>Route targets\<close>

lemma rfind_char_None: "rfind_char c s = None \<longleftrightarrow> c \<notin> set s"
  by (induction s) (auto split: option.splits)

lemma rfind_char_Some:
  "rfind_char c s = Some pos \<Longrightarrow> pos < length s \<and> s ! pos = c \<and> c \<notin> set (drop (Suc pos) s)"
proof (induction s arbitrary: pos)
  case Nil
  then show ?case by simp
next
  case (Cons x xs)
  show ?case
  proof (cases "rfind_char c xs")
    case None
    with Cons.prems have "x = c" "pos = 0" by (auto split: if_splits)
    moreover from None have "c \<notin> set xs" by (simp add: rfind_char_None)
    ultimately show ?thesis by simp
  next
    case (Some i)
    with Cons.prems have "pos = Suc i" by simp
    with Cons.IH [OF Some] show ?thesis by simp
  qed
qed

lemma rfind_char_append: "c \<notin> set rest \<Longrightarrow> rfind_char c (h @ c # rest) = Some (length h)"
  by (induction h) (auto simp: rfind_char_None [THEN iffD2] split: option.splits)

lemma parse_host_port_Some_iff:
  "parse_host_port target = Some (h, p) \<longleftrightarrow>
     (\<exists>rest. target = h @ CHR '':'' # rest \<and> h \<noteq> [] \<and> rest \<noteq> [] \<and> CHR '':'' \<notin> set rest
        \<and> stoi rest = Some p \<and> 1 \<le> p \<and> p \<le> 65535)"
proof
  assume a: "parse_host_port target = Some (h, p)"
  then obtain pos where pos: "rfind_char CHR '':'' target = Some pos"
    by (auto simp: parse_host_port_def split: option.splits)
  from a pos have b: "pos \<noteq> 0" "pos + 1 < length target" "h = take pos target"
    "stoi (drop (pos + 1) target) = Some p" "1 \<le> p" "p \<le> 65535"
    by (auto simp: parse_host_port_def split: option.splits if_splits)
  from rfind_char_Some [OF pos]
  have c: "pos < length target" "target ! pos = CHR '':''" "CHR '':'' \<notin> set (drop (Suc pos) target)"
    by auto
  have "target = take pos target @ target ! pos # drop (Suc pos) target"
    using c(1) by (simp add: id_take_nth_drop)
  with b c show "\<exists>rest. target = h @ CHR '':'' # rest \<and> h \<noteq> [] \<and> rest \<noteq> [] \<and> CHR '':'' \<notin> set rest
        \<and> stoi rest = Some p \<and> 1 \<le> p \<and> p \<le> 65535"
    by (intro exI [of _ "drop (Suc pos) target"]) auto
next
  assume "\<exists>rest. target = h @ CHR '':'' # rest \<and> h \<noteq> [] \<and> rest \<noteq> [] \<and> CHR '':'' \<notin> set rest
        \<and> stoi rest = Some p \<and> 1 \<le> p \<and> p \<le> 65535"
  then obtain rest where r: "target = h @ CHR '':'' # rest" "h \<noteq> []" "rest \<noteq> []"
    "CHR '':'' \<notin> set rest" "stoi rest = Some p" "1 \<le> p" "p \<le> 65535"
    by blast
  then have "rfind_char CHR '':'' target = Some (length h)"
    by (simp add: rfind_char_append)
  with r show "parse_host_port target = Some (h, p)"
    by (simp add: parse_host_port_def)
qed

text \<open>
  C5, as the code has it: for a request that reaches the route target, the handler goes
  on to the upstream exactly when the target is \<open>host:rest\<close> with a non-empty host, a
  non-empty \<open>rest\<close> without a colon, and \<^verbatim>\<open>std::stoi\<close> reading from \<open>rest\<close> a port from 1
  to 65535: white space and a sign before the digits are accepted and whatever follows
  the digits is ignored. For every other target it replies 502 Bad Gateway and leaves
  the loop.
\<close>

theorem target_gate:
  assumes "path req \<noteq> ''/_flow/domains/health''"
    and "normalized_host req \<noteq> []"
    and "lookup routes (normalized_host req) = Some target"
  shows "(snd (handle_request g routes send_ok req) = Forward h p \<longleftrightarrow>
            (\<exists>rest. target = h @ CHR '':'' # rest \<and> h \<noteq> [] \<and> rest \<noteq> []
               \<and> CHR '':'' \<notin> set rest \<and> stoi rest = Some p \<and> 1 \<le> p \<and> p \<le> 65535))
       \<and> ((\<exists>h' p'. snd (handle_request g routes send_ok req) = Forward h' p')
            \<or> handle_request g routes send_ok req =
                 (send_simple_response 502 ''Bad Gateway'' (''Invalid target route'' @ [LF]), Break))"
proof (cases "parse_host_port target")
  case None
  then have "\<not> (\<exists>rest. target = h @ CHR '':'' # rest \<and> h \<noteq> [] \<and> rest \<noteq> []
               \<and> CHR '':'' \<notin> set rest \<and> stoi rest = Some p \<and> 1 \<le> p \<and> p \<le> 65535)"
    using parse_host_port_Some_iff [of target h p] by simp
  with None assms show ?thesis
    by (simp add: handle_request_def)
next
  case (Some hp)
  obtain h' p' where hp: "hp = (h', p')" by (cases hp)
  have "(h' = h \<and> p' = p) \<longleftrightarrow> (\<exists>rest. target = h @ CHR '':'' # rest \<and> h \<noteq> [] \<and> rest \<noteq> []
               \<and> CHR '':'' \<notin> set rest \<and> stoi rest = Some p \<and> 1 \<le> p \<and> p \<le> 65535)"
    using parse_host_port_Some_iff [of target h p] Some hp by auto
  with Some hp assms show ?thesis
    by (simp add: handle_request_def)
qed

lemmas target_eval =
  handle_request_def lookup_def parse_host_port_def stoi_def strto_def isspace_def is_digit_def
  digit_val_def digits_val_def tolower_def to_lower_def Let_def well_formed_port_def

theorem target_gate_witness:
  "snd (handle_request default_globals [''example.test'' \<mapsto> ''127.0.0.1:9000''] True
          (Request0\<lparr>path := ''/p'', normalized_host := ''example.test''\<rparr>))
     = Forward ''127.0.0.1'' 9000"
proof -
  have "stoi ''9000'' = Some 9000"
    by (simp add: target_eval)
  then have "\<exists>rest. ''127.0.0.1:9000'' = ''127.0.0.1'' @ CHR '':'' # rest \<and> ''127.0.0.1'' \<noteq> [] \<and> rest \<noteq> []
      \<and> CHR '':'' \<notin> set rest \<and> stoi rest = Some 9000 \<and> (1::int) \<le> 9000 \<and> (9000::int) \<le> 65535"
    by (intro exI [of _ "''9000''"]) simp
  then show ?thesis
    using target_gate [of "Request0\<lparr>path := ''/p'', normalized_host := ''example.test''\<rparr>"
        "[''example.test'' \<mapsto> ''127.0.0.1:9000'']" "''127.0.0.1:9000''" default_globals True
        "''127.0.0.1''" 9000]
    by (simp add: Request0_def lookup_def to_lower_def tolower_def)
qed

text \<open>
  C5 as stated fails: the port portion \<^verbatim>\<open>80abc\<close> of the target \<^verbatim>\<open>127.0.0.1:80abc\<close> is not
  a well-formed decimal number, and the handler goes on to the upstream with port 80
  instead of replying 502.
\<close>

theorem target_trailing_text_counterexample:
  "\<not> well_formed_port ''80abc'' \<and>
   handle_request default_globals [''example.test'' \<mapsto> ''127.0.0.1:80abc''] True
     (Request0\<lparr>path := ''/p'', normalized_host := ''example.test''\<rparr>)
     = ([], Forward ''127.0.0.1'' 80)"
  by (simp add: target_eval Request0_def)

section \<open>The request line\<close>

lemma split_ws_run:
  "split_ws cur s =
     (if cur @ takeWhile (\<lambda>c. \<not> isspace c) s = [] then split_ws [] (dropWhile (\<lambda>c. \<not> isspace c) s)
      else (cur @ takeWhile (\<lambda>c. \<not> isspace c) s) # split_ws [] (dropWhile (\<lambda>c. \<not> isspace c) s))"
  by (induction s arbitrary: cur) auto

lemma split_ws_skip: "split_ws [] s = split_ws [] (dropWhile isspace s)"
  by (induction s) auto

lemma extract_word_None: "extract_word s = None \<Longrightarrow> ws_tokens s = []"
proof -
  assume "extract_word s = None"
  then have "dropWhile isspace s = []"
    by (simp add: extract_word_def Let_def split: if_splits)
  then have "split_ws [] (dropWhile isspace s) = split_ws [] []"
    by (rule arg_cong)
  then have "split_ws [] (dropWhile isspace s) = []"
    by simp
  then show ?thesis
    using split_ws_skip [of s] by (simp only: ws_tokens_def)
qed

lemma extract_word_Some: "extract_word s = Some (w, r) \<Longrightarrow> ws_tokens s = w # ws_tokens r"
proof -
  assume a: "extract_word s = Some (w, r)"
  define s' where "s' = dropWhile isspace s"
  from a have ne: "s' \<noteq> []" and w: "w = takeWhile (\<lambda>c. \<not> isspace c) s'"
    and r: "r = dropWhile (\<lambda>c. \<not> isspace c) s'"
    by (auto simp: extract_word_def Let_def s'_def split: if_splits)
  from ne have "\<not> isspace (hd s')"
    unfolding s'_def by (metis hd_dropWhile)
  with ne have "takeWhile (\<lambda>c. \<not> isspace c) s' \<noteq> []"
    by (cases s') auto
  then have "split_ws [] s' = w # split_ws [] r"
    using split_ws_run [of "[]" s'] w r by simp
  then show ?thesis
    using split_ws_skip [of s] by (simp add: ws_tokens_def s'_def)
qed

lemma parse_request_line_tokens:
  "parse_request_line line =
     (case ws_tokens line of m # p # v # rest \<Rightarrow> Some (m, p, v) | _ \<Rightarrow> None)"
proof (cases "extract_word line")
  case None
  then show ?thesis by (simp add: parse_request_line_def extract_word_None)
next
  case (Some a)
  then obtain m r1 where 1: "extract_word line = Some (m, r1)" by (cases a) auto
  show ?thesis
  proof (cases "extract_word r1")
    case None
    with 1 show ?thesis
      by (simp add: parse_request_line_def extract_word_None extract_word_Some)
  next
    case (Some b)
    then obtain p r2 where 2: "extract_word r1 = Some (p, r2)" by (cases b) auto
    show ?thesis
    proof (cases "extract_word r2")
      case None
      with 1 2 show ?thesis
        by (simp add: parse_request_line_def extract_word_None extract_word_Some)
    next
      case (Some c)
      then obtain v r3 where 3: "extract_word r2 = Some (v, r3)" by (cases c) auto
      with 1 2 show ?thesis
        by (simp add: parse_request_line_def extract_word_Some)
    qed
  qed
qed

lemma parse_request_line_None_iff:
  "parse_request_line line = None \<longleftrightarrow> length (ws_tokens line) < 3"
  by (simp add: parse_request_line_tokens split: list.splits)

lemma parse_request_line_Some:
  "parse_request_line line = Some (m, p, v) \<Longrightarrow> \<exists>rest. ws_tokens line = m # p # v # rest"
  by (simp add: parse_request_line_tokens split: list.splits)

section \<open>The errors of \<^verbatim>\<open>read_request\<close>\<close>

lemma recv_append_error: "recv_append buf es = (Inl e, es') \<Longrightarrow> recv_error e"
  by (induction buf es rule: recv_append.induct) (auto simp: recv_error_def)

lemma ensure_bytes_available_error:
  "ensure_bytes_available buf need es = (Inl e, es') \<Longrightarrow> recv_error e"
proof (induction buf need es rule: ensure_bytes_available.induct)
  case (1 buf need es)
  show ?case
  proof (cases "length buf < need")
    case False
    with "1.prems" show ?thesis by (simp add: ensure_bytes_available.simps)
  next
    case True
    obtain r es1 where r: "recv_append buf es = (r, es1)" by (cases "recv_append buf es")
    show ?thesis
    proof (cases r)
      case (Inl e1)
      with True r "1.prems" have "e = e1" by (simp add: ensure_bytes_available.simps)
      with Inl r show ?thesis by (auto dest: recv_append_error)
    next
      case (Inr buf')
      with True r "1.prems" have "ensure_bytes_available buf' need es1 = (Inl e, es')"
        by (simp add: ensure_bytes_available.simps [of buf])
      with "1.IH" [OF True r [symmetric] Inr] show ?thesis by simp
    qed
  qed
qed

lemma consume_trailers_error:
  "consume_trailers buf cursor es = (Inl f, es') \<Longrightarrow> \<exists>e. f = Failed e \<and> recv_error e"
proof (induction buf cursor es rule: consume_trailers.induct)
  case (1 buf cursor es)
  show ?case
  proof (cases "find_from crlf buf cursor")
    case None
    obtain r es1 where r: "recv_append buf es = (r, es1)" by (cases "recv_append buf es")
    show ?thesis
    proof (cases r)
      case (Inl e1)
      with None r "1.prems" have "f = Failed e1" by (simp add: consume_trailers.simps)
      with Inl r show ?thesis by (auto dest: recv_append_error)
    next
      case (Inr buf')
      with None r "1.prems" have "consume_trailers buf' cursor es1 = (Inl f, es')"
        by (simp add: consume_trailers.simps [of buf])
      with "1.IH"(1) [OF None r [symmetric] Inr] show ?thesis by simp
    qed
  next
    case (Some trailer_end)
    show ?thesis
    proof (cases "substr buf cursor (trailer_end - cursor) = []")
      case True
      with Some "1.prems" show ?thesis by (simp add: consume_trailers.simps)
    next
      case False
      with Some "1.prems" have "consume_trailers buf (trailer_end + 2) es = (Inl f, es')"
        by (simp add: consume_trailers.simps [of buf cursor])
      with "1.IH"(2) [OF Some False] show ?thesis by simp
    qed
  qed
qed

lemma decode_chunks_error_aux:
  assumes "decode_chunks buf cursor out_body es = Some y"
  shows "\<forall>e es'. y = (Inl (Failed e), es') \<longrightarrow> chunk_error e"
proof (rule decode_chunks.raw_induct
    [where P = "\<lambda>b c ob es y. \<forall>e es'. y = (Inl (Failed e), es') \<longrightarrow> chunk_error e", OF _ assms])
  fix f :: "string \<Rightarrow> nat \<Rightarrow> string \<Rightarrow> recv_result list
      \<Rightarrow> ((failure + string \<times> string) \<times> recv_result list) option"
  fix buf cursor out_body es y
  assume IH: "\<And>b c ob es y. f b c ob es = Some y
      \<Longrightarrow> \<forall>e es'. y = (Inl (Failed e), es') \<longrightarrow> chunk_error e"
  assume step: "(case find_from crlf buf cursor of
        None \<Rightarrow>
          (case recv_append buf es of
             (Inl e, es') \<Rightarrow> Some (Inl (Failed e), es')
           | (Inr buf', es') \<Rightarrow> f buf' cursor out_body es')
      | Some line_end \<Rightarrow>
          (let line = trim (substr buf cursor (line_end - cursor));
               cursor1 = line_end + 2;
               size_str = (case find_char CHR '';'' line of None \<Rightarrow> line | Some semi \<Rightarrow> take semi line)
           in case stoull 16 size_str of
                None \<Rightarrow> Some (Inl (Failed ''invalid chunk size''), es)
              | Some chunk_size \<Rightarrow>
                  (case ensure_bytes_available buf ((cursor1 + chunk_size + 2) mod 2 ^ 64) es of
                     (Inl e, es') \<Rightarrow> Some (Inl (Failed e), es')
                   | (Inr buf', es') \<Rightarrow>
                       if chunk_size = 0 then
                         (case consume_trailers buf' cursor1 es' of
                            (Inl f, es'') \<Rightarrow> Some (Inl f, es'')
                          | (Inr rest, es'') \<Rightarrow> Some (Inr (out_body, rest), es''))
                       else
                         (let out_body' = out_body @ substr buf' cursor1 chunk_size;
                              cursor2 = (cursor1 + chunk_size) mod 2 ^ 64
                          in if length buf' < cursor2 then Some (Inl Terminated, es')
                             else if substr buf' cursor2 2 \<noteq> crlf
                             then Some (Inl (Failed ''invalid chunk terminator''), es')
                             else f buf' (cursor2 + 2) out_body' es')))) = Some y"
  show "\<forall>e es'. y = (Inl (Failed e), es') \<longrightarrow> chunk_error e"
  proof (intro allI impI)
    fix e es'
    assume y: "y = (Inl (Failed e), es')"
    show "chunk_error e"
    proof (cases "find_from crlf buf cursor")
      case None
      obtain r es1 where r: "recv_append buf es = (r, es1)" by (cases "recv_append buf es")
      show ?thesis
      proof (cases r)
        case (Inl e1)
        with None r step y have "e = e1" by simp
        with Inl r show ?thesis by (auto simp: chunk_error_def dest: recv_append_error)
      next
        case (Inr buf')
        with None r step have "f buf' cursor out_body es1 = Some y" by simp
        with IH y show ?thesis by blast
      qed
    next
      case (Some line_end)
      note le = this
      let ?line = "trim (substr buf cursor (line_end - cursor))"
      let ?size_str = "case find_char CHR '';'' ?line of None \<Rightarrow> ?line | Some semi \<Rightarrow> take semi ?line"
      show ?thesis
      proof (cases "stoull 16 ?size_str")
        case None
        with le step y show ?thesis
          by (simp add: Let_def chunk_error_def)
      next
        case (Some chunk_size)
        note cs = this
        let ?need = "(line_end + 2 + chunk_size + 2) mod 2 ^ 64"
        obtain r es1 where r: "ensure_bytes_available buf ?need es = (r, es1)"
          by (cases "ensure_bytes_available buf ?need es")
        show ?thesis
        proof (cases r)
          case (Inl e1)
          with le cs r step y have "e = e1"
            by (simp add: Let_def)
          with Inl r show ?thesis
            by (auto simp: chunk_error_def dest: ensure_bytes_available_error)
        next
          case (Inr buf')
          note buf' = this
          show ?thesis
          proof (cases "chunk_size = 0")
            case True
            obtain t es2 where t: "consume_trailers buf' (line_end + 2) es1 = (t, es2)"
              by (cases "consume_trailers buf' (line_end + 2) es1")
            from le cs r buf' True t step y
            have "t = Inl (Failed e)"
              by (cases t) (simp_all add: Let_def)
            with t show ?thesis
              by (auto simp: chunk_error_def dest: consume_trailers_error)
          next
            case False
            let ?cursor2 = "(line_end + 2 + chunk_size) mod 2 ^ 64"
            from le cs r buf' False step y
            have "e = ''invalid chunk terminator''
                \<or> f buf' (?cursor2 + 2) (out_body @ substr buf' (line_end + 2) chunk_size) es1 = Some y"
              by (simp add: Let_def split: if_splits)
            then show ?thesis
            proof
              assume "e = ''invalid chunk terminator''"
              then show ?thesis by (simp add: chunk_error_def)
            next
              assume "f buf' (?cursor2 + 2) (out_body @ substr buf' (line_end + 2) chunk_size) es1
                = Some y"
              with IH y show ?thesis by blast
            qed
          qed
        qed
      qed
    qed
  qed
qed

lemma decode_chunks_error:
  "decode_chunks buf cursor out_body es = Some (Inl (Failed e), es') \<Longrightarrow> chunk_error e"
  using decode_chunks_error_aux by blast


lemma recv_body_error:
  "recv_body n b es = (Inl e, es') \<Longrightarrow> e = ''client closed before full request body''"
proof (induction n b es rule: recv_body.induct)
  case (1 n b es)
  from "1.prems" show ?case
    by (subst (asm) recv_body.simps)
      (auto split: if_splits list.splits recv_result.splits dest: "1.IH")
qed

lemma read_body_error:
  assumes "read_body can_reserve req initial es = Some (Inl (Failed e), es')"
  shows "body_error e"
proof (cases "case headers_lc req ''content-length'' of None \<Rightarrow> Some 0 | Some v \<Rightarrow> stoul v")
  case None
  with assms have "e = ''invalid content-length''"
    by (simp add: read_body_def)
  then show ?thesis by (simp add: body_error_def)
next
  case (Some content_length)
  note cl = this
  let ?is_chunked = "case headers_lc req ''transfer-encoding'' of
      None \<Rightarrow> False | Some v \<Rightarrow> find_str ''chunked'' (to_lower v) \<noteq> None"
  show ?thesis
  proof (cases ?is_chunked)
    case True
    with cl assms have "decode_chunks initial 0 [] es = Some (Inl (Failed e), es')"
      by (simp add: read_body_def decode_chunked_body_def Let_def
          split: option.splits prod.splits sum.splits)
    then show ?thesis
      by (auto simp: body_error_def dest: decode_chunks_error)
  next
    case False
    note nc = this
    show ?thesis
    proof (cases "content_length \<le> length initial")
      case True
      with cl nc assms show ?thesis
        by (simp add: read_body_def Let_def)
    next
      case False
      with cl nc assms have "\<exists>es1. recv_body content_length initial es = (Inl e, es1)"
        by (simp add: read_body_def Let_def split: if_splits prod.splits sum.splits)
      then show ?thesis
        by (auto simp: body_error_def dest: recv_body_error)
    qed
  qed
qed

lemma read_head_error:
  "read_head buf es = (Inl e, es') \<Longrightarrow>
     e = ''request headers too large'' \<or> e = ''client closed before request'' \<or> recv_error e"
proof (induction buf es rule: read_head.induct)
  case (1 buf es)
  note prem = "1.prems" [unfolded read_head.simps [of buf es]]
  show ?case
  proof (cases "find_str crlfcrlf buf")
    case (Some header_end)
    with prem show ?thesis by simp
  next
    case None
    note nf = this
    show ?thesis
    proof (cases "kMaxHeaderBytes < length buf")
      case True
      with nf prem show ?thesis by simp
    next
      case False
      note small = this
      show ?thesis
      proof (cases es)
        case Nil
        with nf small prem show ?thesis by simp
      next
        case (Cons ev es1)
        show ?thesis
        proof (cases ev)
          case (Recv_data c cs)
          with nf small Cons prem have "read_head (buf @ c # cs) es1 = (Inl e, es')" by simp
          with "1.IH"(1) [OF nf small Cons Recv_data] show ?thesis by simp
        next
          case Recv_eof
          with nf small Cons prem show ?thesis by simp
        next
          case Recv_eintr
          with nf small Cons prem have "read_head buf es1 = (Inl e, es')" by simp
          with "1.IH"(2) [OF nf small Cons Recv_eintr] show ?thesis by simp
        next
          case (Recv_error m)
          with nf small Cons prem have "e = ''recv failed: '' @ m" by simp
          then have "recv_error e" unfolding recv_error_def by (intro disjI2 exI)
          then show ?thesis by simp
        qed
      qed
    qed
  qed
qed

lemma parse_head_error:
  "parse_head blob = Inl e \<Longrightarrow> e = ''missing request line'' \<or> e = ''invalid request line''"
  unfolding parse_head_def
  by (cases "getline blob"; cases "parse_request_line (strip_cr (fst (the (getline blob))))")
    (auto simp: Let_def split: prod.splits)

lemma read_request_error:
  assumes "read_request can_reserve pending es = Some (Inl (Failed e), es')"
  shows "request_error e"
proof -
  obtain r es1 where r: "read_head pending es = (r, es1)" by (cases "read_head pending es")
  show ?thesis
  proof (cases r)
    case (Inl e1)
    with r assms have "e = e1" by (simp add: read_request_def)
    with Inl r have "read_head pending es = (Inl e, es1)" by simp
    from read_head_error [OF this] show ?thesis
      by (elim disjE) (simp_all add: request_error_def body_error_def chunk_error_def)
  next
    case (Inr hb)
    note rr = this
    obtain header_end buf where hb: "hb = (header_end, buf)" by (cases hb)
    show ?thesis
    proof (cases "parse_head (substr buf 0 (header_end + 4))")
      case (Inl e1)
      with r rr hb assms have "e = e1" by (simp add: read_request_def Let_def)
      with Inl have "parse_head (substr buf 0 (header_end + 4)) = Inl e" by simp
      from parse_head_error [OF this] show ?thesis
        by (elim disjE) (simp_all add: request_error_def)
    next
      case (Inr req)
      with r rr hb assms
      have "read_body can_reserve req (drop (header_end + 4) buf) es1 = Some (Inl (Failed e), es')"
        by (simp add: read_request_def Let_def)
      from read_body_error [OF this] show ?thesis
        by (simp add: request_error_def)
    qed
  qed
qed

text \<open>
  A declared length that cannot be reserved: \<^verbatim>\<open>Content-Length: -1\<close> is read as
  \<open>2^64 - 1\<close>, \<^verbatim>\<open>reserve\<close> throws and nothing catches the exception.
\<close>

lemma read_request_reserve_throws:
  "read_request roomy (''POST / HTTP/1.1'' @ crlf @ ''Content-Length: -1'' @ crlf @ crlf) []
     = Some (Inl Terminated, [])"
  by (simp add: request_eval)

section \<open>The request line in \<^verbatim>\<open>read_request\<close>\<close>

lemma read_head_found:
  "read_head pending es = (Inr (header_end, buf), es') \<Longrightarrow> find_str crlfcrlf buf = Some header_end"
proof (induction pending es rule: read_head.induct)
  case (1 buf0 es)
  note prem = "1.prems" [unfolded read_head.simps [of buf0 es]]
  show ?case
  proof (cases "find_str crlfcrlf buf0")
    case (Some he)
    with prem show ?thesis by simp
  next
    case None
    note nf = this
    show ?thesis
    proof (cases "kMaxHeaderBytes < length buf0")
      case True
      with nf prem show ?thesis by simp
    next
      case False
      note small = this
      show ?thesis
      proof (cases es)
        case Nil
        with nf small prem show ?thesis by simp
      next
        case (Cons ev es1)
        show ?thesis
        proof (cases ev)
          case (Recv_data c cs)
          with nf small Cons prem
          have "read_head (buf0 @ c # cs) es1 = (Inr (header_end, buf), es')" by simp
          with "1.IH"(1) [OF nf small Cons Recv_data] show ?thesis by simp
        next
          case Recv_eof
          with nf small Cons prem show ?thesis by simp
        next
          case Recv_eintr
          with nf small Cons prem have "read_head buf0 es1 = (Inr (header_end, buf), es')" by simp
          with "1.IH"(2) [OF nf small Cons Recv_eintr] show ?thesis by simp
        next
          case (Recv_error m)
          with nf small Cons prem show ?thesis by simp
        qed
      qed
    qed
  qed
qed

lemma parse_header_lines_line:
  "method (parse_header_lines s req) = method req
     \<and> path (parse_header_lines s req) = path req
     \<and> version (parse_header_lines s req) = version req"
proof (induction s req rule: parse_header_lines.induct)
  case (1 s req)
  show ?case
  proof (cases "getline s")
    case None
    then show ?thesis by (simp add: parse_header_lines.simps [of s])
  next
    case (Some lr)
    obtain line0 rest where lr: "lr = (line0, rest)" by (cases lr)
    show ?thesis
    proof (cases "strip_cr line0 = []")
      case True
      with Some lr show ?thesis by (simp add: parse_header_lines.simps [of s])
    next
      case False
      note ne = this
      show ?thesis
      proof (cases "find_char CHR '':'' (strip_cr line0)")
        case None
        with Some lr ne "1.IH"(1) [OF Some lr [symmetric] refl ne None] show ?thesis
          by (simp add: parse_header_lines.simps [of s])
      next
        case (Some pos)
        with \<open>getline s = Some lr\<close> lr ne
          "1.IH"(2) [OF \<open>getline s = Some lr\<close> lr [symmetric] refl ne Some refl refl]
        show ?thesis
          by (simp add: parse_header_lines.simps [of s] Let_def)
      qed
    qed
  qed
qed

lemma read_body_line:
  assumes "read_body can_reserve req initial es = Some (Inr r, es')"
  shows "method r = method req \<and> path r = path req \<and> version r = version req"
proof (cases "case headers_lc req ''content-length'' of None \<Rightarrow> Some 0 | Some v \<Rightarrow> stoul v")
  case None
  with assms show ?thesis by (simp add: read_body_def)
next
  case (Some content_length)
  note cl = this
  let ?is_chunked = "case headers_lc req ''transfer-encoding'' of
      None \<Rightarrow> False | Some v \<Rightarrow> find_str ''chunked'' (to_lower v) \<noteq> None"
  show ?thesis
  proof (cases ?is_chunked)
    case True
    with cl assms show ?thesis
      by (auto simp: read_body_def Let_def finish_request_def
          split: option.splits prod.splits sum.splits)
  next
    case False
    with cl assms show ?thesis
      by (auto simp: read_body_def Let_def finish_request_def
          split: if_splits prod.splits sum.splits)
  qed
qed

lemma body_error_not_request_line: "\<not> body_error ''invalid request line''"
  by (simp add: body_error_def chunk_error_def recv_error_def)

text \<open>
  C7, as the code has it: once the head of a request has been read, \<^verbatim>\<open>read_request\<close>
  fails with the error \<^verbatim>\<open>invalid request line\<close> exactly when the first line, up to the
  first line feed, holds fewer than three tokens separated by white space. When
  \<^verbatim>\<open>read_request\<close> succeeds, the method, the path and the version are the first three
  tokens of that line; any run of white space separates them and what follows the third
  token is ignored.
\<close>

theorem request_line_tokens:
  assumes "read_head pending es = (Inr (header_end, buf), es')"
    and "line = strip_cr (takeWhile (\<lambda>c. c \<noteq> LF) (substr buf 0 (header_end + 4)))"
  shows "(read_request can_reserve pending es = Some (Inl (Failed ''invalid request line''), es')
            \<longleftrightarrow> length (ws_tokens line) < 3)
       \<and> (\<forall>req es''. read_request can_reserve pending es = Some (Inr req, es'')
            \<longrightarrow> (\<exists>rest. ws_tokens line = method req # path req # version req # rest))"
proof -
  let ?blob = "substr buf 0 (header_end + 4)"
  from read_head_found [OF assms(1)] have "4 \<le> length buf"
    by (auto dest!: find_str_bounds simp: crlfcrlf_def)
  then have ne: "?blob \<noteq> []"
    by (auto simp: substr_def)
  then have gl: "getline ?blob = Some (takeWhile (\<lambda>c. c \<noteq> LF) ?blob,
      drop 1 (dropWhile (\<lambda>c. c \<noteq> LF) ?blob))"
    by (simp add: getline_def)
  let ?rest = "drop 1 (dropWhile (\<lambda>c. c \<noteq> LF) ?blob)"
  show ?thesis
  proof (cases "parse_request_line line")
    case None
    with gl assms(2) have "parse_head ?blob = Inl ''invalid request line''"
      by (simp add: parse_head_def)
    with assms(1) have "read_request can_reserve pending es = Some (Inl (Failed ''invalid request line''), es')"
      by (simp add: read_request_def Let_def)
    moreover from None have "length (ws_tokens line) < 3"
      by (simp add: parse_request_line_None_iff)
    ultimately show ?thesis by simp
  next
    case (Some mpv)
    obtain m p v where mpv: "mpv = (m, p, v)" by (cases mpv)
    from Some mpv obtain rest where toks: "ws_tokens line = m # p # v # rest"
      using parse_request_line_Some by blast
    let ?req0 = "parse_header_lines ?rest (Request0\<lparr>method := m, path := p, version := v\<rparr>)"
    obtain req1 where ph: "parse_head ?blob = Inr req1"
      and line1: "method req1 = m \<and> path req1 = p \<and> version req1 = v"
    proof (cases "headers_lc ?req0 ''host''")
      case None
      with gl assms(2) Some mpv have "parse_head ?blob = Inr ?req0"
        by (simp add: parse_head_def Let_def)
      moreover have "method ?req0 = m \<and> path ?req0 = p \<and> version ?req0 = v"
        using parse_header_lines_line [of ?rest "Request0\<lparr>method := m, path := p, version := v\<rparr>"]
        by simp
      ultimately show ?thesis using that by blast
    next
      case (Some h)
      let ?req1 = "?req0\<lparr>normalized_host := to_lower (strip_port_from_host (trim h))\<rparr>"
      from gl assms(2) \<open>parse_request_line line = Some mpv\<close> mpv Some
      have "parse_head ?blob = Inr ?req1"
        by (simp add: parse_head_def Let_def)
      moreover have "method ?req1 = m \<and> path ?req1 = p \<and> version ?req1 = v"
        using parse_header_lines_line [of ?rest "Request0\<lparr>method := m, path := p, version := v\<rparr>"]
        by simp
      ultimately show ?thesis using that by blast
    qed
    have rr: "read_request can_reserve pending es = read_body can_reserve req1 (drop (header_end + 4) buf) es'"
      using assms(1) ph by (simp add: read_request_def Let_def)
    have "read_request can_reserve pending es \<noteq> Some (Inl (Failed ''invalid request line''), es')"
      using rr read_body_error [of can_reserve req1 "drop (header_end + 4) buf" es' "''invalid request line''" es']
        body_error_not_request_line by auto
    moreover have "\<not> length (ws_tokens line) < 3"
      using toks by simp
    moreover have "\<exists>rest. ws_tokens line = method req # path req # version req # rest"
      if "read_request can_reserve pending es = Some (Inr req, es'')" for req es''
      using that rr read_body_line [of can_reserve req1 "drop (header_end + 4) buf" es' req es''] line1 toks
      by simp
    ultimately show ?thesis by blast
  qed
qed

theorem request_line_tokens_witness:
  "read_head (''GET  /a'' @ [CHR 0x09] @ ''HTTP/1.1 x'' @ crlf @ crlf) []
     = (Inr (18, ''GET  /a'' @ [CHR 0x09] @ ''HTTP/1.1 x'' @ crlf @ crlf), [])
   \<and> ws_tokens (''GET  /a'' @ [CHR 0x09] @ ''HTTP/1.1 x'') = [''GET'', ''/a'', ''HTTP/1.1'', ''x'']
   \<and> read_request roomy (''GET  /a'' @ [CHR 0x09] @ ''HTTP/1.1 x'' @ crlf @ crlf) []
        \<noteq> Some (Inl (Failed ''invalid request line''), [])"
proof -
  let ?p = "''GET  /a'' @ [CHR 0x09] @ ''HTTP/1.1 x'' @ crlf @ crlf"
  have h: "read_head ?p [] = (Inr (18, ?p), [])"
    by (simp add: read_head.simps crlf_def crlfcrlf_def)
  have l: "''GET  /a'' @ [CHR 0x09] @ ''HTTP/1.1 x''
      = strip_cr (takeWhile (\<lambda>c. c \<noteq> LF) (substr ?p 0 (18 + 4)))"
    by (simp add: strip_cr_def substr_def crlf_def LF_def CR_def)
  have t: "ws_tokens (''GET  /a'' @ [CHR 0x09] @ ''HTTP/1.1 x'') = [''GET'', ''/a'', ''HTTP/1.1'', ''x'']"
    by (simp add: ws_tokens_def isspace_def)
  from request_line_tokens [OF h l] t h show ?thesis
    by simp
qed

text \<open>
  C7 as stated fails: the request line \<^verbatim>\<open>GET / HTTP/1.1 extra\<close> is not of the form
  \<^verbatim>\<open>METHOD SP PATH SP VERSION\<close>, and \<^verbatim>\<open>read_request\<close> succeeds on it.
\<close>

theorem request_line_extra_counterexample:
  "\<not> exact_request_line ''GET / HTTP/1.1 extra'' \<and>
   map_option (\<lambda>r. map_sum id (\<lambda>q. (method q, path q, version q)) (fst r))
     (read_request roomy (''GET / HTTP/1.1 extra'' @ crlf @ crlf) [])
     = Some (Inr (''GET'', ''/'', ''HTTP/1.1''))"
  by (simp add: request_eval exact_request_line_def ws_tokens_def)

section \<open>Framing of the request body\<close>

text \<open>
  C1, as the code has it: \<^verbatim>\<open>read_request\<close> converts a \<^verbatim>\<open>Content-Length\<close> header before it
  looks at \<^verbatim>\<open>Transfer-Encoding\<close>. For a request whose \<^verbatim>\<open>Transfer-Encoding\<close> value
  contains \<^verbatim>\<open>chunked\<close> (case-insensitive substring): when a \<^verbatim>\<open>Content-Length\<close> header is
  present and \<^verbatim>\<open>std::stoul\<close> cannot convert it, the request fails with
  \<^verbatim>\<open>invalid content-length\<close>; in every other case the body is read with chunked framing,
  and the result does not depend on whether a \<^verbatim>\<open>Content-Length\<close> is present or on its
  value.
\<close>

theorem chunked_framing:
  assumes "read_head pending es = (Inr (header_end, buf), es')"
    and "parse_head (substr buf 0 (header_end + 4)) = Inr req"
    and "headers_lc req ''transfer-encoding'' = Some te"
    and "occurs_in ''chunked'' (to_lower te)"
  shows "read_request can_reserve pending es =
     (if \<exists>v. headers_lc req ''content-length'' = Some v \<and> stoul v = None
      then Some (Inl (Failed ''invalid content-length''), es')
      else (case decode_chunked_body (drop (header_end + 4) buf) es' of
              None \<Rightarrow> None
            | Some (Inl f, es'') \<Rightarrow> Some (Inl f, es'')
            | Some (Inr (b, rest), es'') \<Rightarrow>
                Some (Inr (finish_request (req\<lparr>chunked := True\<rparr>) b rest), es'')))"
proof -
  from assms(4) have ch: "find_str ''chunked'' (to_lower te) \<noteq> None"
    by (simp add: find_str_None_iff)
  have rr: "read_request can_reserve pending es = read_body can_reserve req (drop (header_end + 4) buf) es'"
    using assms(1,2) by (simp add: read_request_def Let_def)
  show ?thesis
  proof (cases "headers_lc req ''content-length''")
    case None
    with ch assms(3) rr show ?thesis
      by (simp add: read_body_def Let_def)
  next
    case (Some v)
    show ?thesis
    proof (cases "stoul v")
      case None
      with Some rr show ?thesis by (simp add: read_body_def)
    next
      case (Some n)
      with \<open>headers_lc req ''content-length'' = Some v\<close> ch assms(3) rr show ?thesis
        by (simp add: read_body_def Let_def)
    qed
  qed
qed

theorem chunked_framing_witness:
  "map_option (\<lambda>r. map_sum id (\<lambda>q. (body q, leftover q, chunked q)) (fst r))
     (read_request roomy
        (''POST /x HTTP/1.1'' @ crlf @ ''Transfer-Encoding: Chunked'' @ crlf
          @ ''Content-Length: 999'' @ crlf @ crlf @ ''3'' @ crlf @ ''abc'' @ crlf @ ''0'' @ crlf @ crlf) [])
     = Some (Inr (''abc'', [], True))"
proof -
  let ?p = "''POST /x HTTP/1.1'' @ crlf @ ''Transfer-Encoding: Chunked'' @ crlf
          @ ''Content-Length: 999'' @ crlf @ crlf @ ''3'' @ crlf @ ''abc'' @ crlf @ ''0'' @ crlf @ crlf"
  let ?req = "Request0\<lparr>method := ''POST'', path := ''/x'', version := ''HTTP/1.1'',
      headers := [(''Transfer-Encoding'', ''Chunked''), (''Content-Length'', ''999'')],
      headers_lc := [''transfer-encoding'' \<mapsto> ''Chunked'', ''content-length'' \<mapsto> ''999'']\<rparr>"
  have h: "read_head ?p [] = (Inr (65, ?p), [])"
    by (simp add: read_head.simps crlf_def crlfcrlf_def)
  have p: "parse_head (substr ?p 0 (65 + 4)) = Inr ?req"
    by (simp add: request_eval)
  have t: "headers_lc ?req ''transfer-encoding'' = Some ''Chunked''"
    by (simp add: Request0_def)
  have o: "occurs_in ''chunked'' (to_lower ''Chunked'')"
    unfolding occurs_in_def
    by (rule exI [of _ "[]"], rule exI [of _ "[]"]) (simp add: to_lower_def tolower_def)
  have c: "headers_lc ?req ''content-length'' = Some ''999''"
    by (simp add: Request0_def)
  have s: "stoul ''999'' = Some 999"
    by (simp add: request_eval)
  have d: "decode_chunked_body (drop (65 + 4) ?p) [] = Some (Inr (''abc'', []), [])"
    by (simp add: request_eval)
  from chunked_framing [OF h p t o] c s d show ?thesis
    by (simp add: finish_request_def Request0_def)
qed

text \<open>
  C1 as stated fails: a request with \<^verbatim>\<open>Transfer-Encoding: chunked\<close> and the header
  \<^verbatim>\<open>Content-Length: abc\<close> is not read with chunked framing; it fails with
  \<^verbatim>\<open>invalid content-length\<close>.
\<close>

theorem chunked_bad_length_counterexample:
  "read_request roomy
     (''POST /x HTTP/1.1'' @ crlf @ ''Transfer-Encoding: chunked'' @ crlf
       @ ''Content-Length: abc'' @ crlf @ crlf @ ''0'' @ crlf @ crlf) []
     = Some (Inl (Failed ''invalid content-length''), [])"
  by (simp add: request_eval)

section \<open>Parse errors in the client loop\<close>

text \<open>
  C8, as the code has it: when \<^verbatim>\<open>read_request\<close> fails in the client loop, the handler
  leaves the loop without writing a response exactly when the error text is
  \<^verbatim>\<open>client closed before request\<close> or \<^verbatim>\<open>client closed connection\<close>. For every other
  error, \<^verbatim>\<open>client closed before full request body\<close> included, it replies
  400 Bad Request with the error text and a line feed as the body, and leaves the loop.
\<close>

theorem parse_error_reply:
  assumes "read_request can_reserve pending es = Some (Inl (Failed e), es')"
  shows "handle_client_iteration can_reserve g routes send_ok pending es =
     Some (if e = ''client closed before request'' \<or> e = ''client closed connection''
           then ([], Break)
           else (send_simple_response 400 ''Bad Request'' (e @ [LF]), Break))"
proof -
  from read_request_error [OF assms] have "e \<noteq> []"
    unfolding request_error_def body_error_def chunk_error_def recv_error_def
    by (elim disjE exE) simp_all
  with assms show ?thesis
    by (simp add: handle_client_iteration_def handle_parse_error_def)
qed

lemmas response_eval =
  handle_client_iteration_def handle_parse_error_def handle_request_def send_simple_response_def
  health_response_def show_int_def show_nat.simps kHeaderName_def kHeaderValue_def
  default_globals_def lookup_def

theorem parse_error_reply_witness:
  "handle_client_iteration roomy default_globals Map.empty True [] [Recv_eintr, Recv_eof] = Some ([], Break)"
proof -
  have "read_request roomy [] [Recv_eintr, Recv_eof] = Some (Inl (Failed ''client closed before request''), [])"
    by (simp add: request_eval)
  from parse_error_reply [OF this, of default_globals Map.empty True] show ?thesis
    by simp
qed

text \<open>
  C8 as stated fails: the client closes in the middle of a declared body, the error text
  \<^verbatim>\<open>client closed before full request body\<close> begins with \<^verbatim>\<open>client closed\<close>, and the
  handler replies 400 Bad Request instead of leaving silently.
\<close>

theorem body_disconnect_counterexample:
  "take 13 ''client closed before full request body'' = ''client closed'' \<and>
   handle_client_iteration roomy default_globals Map.empty True
     (''POST / HTTP/1.1'' @ crlf @ ''Content-Length: 5'' @ crlf @ crlf @ ''ab'') []
     = Some (''HTTP/1.1 400 Bad Request'' @ crlf
             @ ''X-Flow-Domainsd: 1'' @ crlf
             @ ''Content-Type: text/plain; charset=utf-8'' @ crlf
             @ ''Content-Length: 39'' @ crlf
             @ ''Connection: close'' @ crlf @ crlf
             @ ''client closed before full request body'' @ [LF], Break)"
  by (simp add: request_eval response_eval)

section \<open>The health endpoint\<close>

lemma health_response_status:
  "take 17 (health_response g req) = ''HTTP/1.1 200 OK'' @ crlf"
  by (simp add: health_response_def Let_def crlf_def)

text \<open>
  C10: for every request that has been read and whose path is
  \<^verbatim>\<open>/_flow/domains/health\<close>, whatever its method and whether or not it carries a
  \<^verbatim>\<open>Host\<close> header, the handler writes the inline health response, which begins with the
  status line \<^verbatim>\<open>HTTP/1.1 200 OK\<close>; it never gets to the check for a missing host, and
  it goes on to the next request when the write succeeded and the client wants
  keep-alive.
\<close>

theorem health_any_method:
  assumes "path req = ''/_flow/domains/health''"
  shows "handle_request g routes send_ok req =
           (health_response g req,
            if send_ok \<and> client_wants_keepalive req then Continue else Break)
       \<and> take 17 (fst (handle_request g routes send_ok req)) = ''HTTP/1.1 200 OK'' @ crlf"
  using assms by (simp add: handle_request_def health_response_status)

theorem health_any_method_witness:
  "map_option (\<lambda>r. (take 17 (fst r), snd r))
     (handle_client_iteration roomy default_globals Map.empty True
        (''DELETE /_flow/domains/health HTTP/1.1'' @ crlf @ crlf) [])
     = Some (''HTTP/1.1 200 OK'' @ crlf, Continue)"
proof -
  let ?req = "Request0\<lparr>method := ''DELETE'', path := ''/_flow/domains/health'',
      version := ''HTTP/1.1'', client_wants_keepalive := True\<rparr>"
  have r: "read_request roomy (''DELETE /_flow/domains/health HTTP/1.1'' @ crlf @ crlf) []
      = Some (Inr ?req, [])"
    by (simp add: request_eval)
  have p: "path ?req = ''/_flow/domains/health''"
    by (simp add: Request0_def)
  have it: "handle_client_iteration roomy default_globals Map.empty True
        (''DELETE /_flow/domains/health HTTP/1.1'' @ crlf @ crlf) []
      = Some (handle_request default_globals Map.empty True ?req)"
    unfolding handle_client_iteration_def r by simp
  have k: "client_wants_keepalive ?req"
    by (simp add: Request0_def)
  note th = health_any_method [OF p, of default_globals Map.empty True]
  from th k have a: "handle_request default_globals Map.empty True ?req
      = (health_response default_globals ?req, Continue)"
    by simp
  from th have "take 17 (fst (handle_request default_globals Map.empty True ?req))
      = ''HTTP/1.1 200 OK'' @ crlf"
    by (rule conjunct2)
  then have b: "take 17 (health_response default_globals ?req) = ''HTTP/1.1 200 OK'' @ crlf"
    unfolding a by (simp only: fst_conv)
  show ?thesis
    unfolding it a using b by simp
qed

section \<open>The caps of the pool\<close>

lemma reap_conns_bounds:
  "reap_conns usable g now cs (idle, w, cl) = (kept, idle', w', cl')
     \<Longrightarrow> length kept \<le> length cs \<and> idle' \<le> idle"
proof (induction cs arbitrary: idle w cl kept idle' w' cl')
  case Nil
  then show ?case by simp
next
  case (Cons c cs)
  show ?case
  proof (cases "is_conn_fresh g now c")
    case False
    with Cons.prems
    have "reap_conns usable g now cs ((if 0 < idle then idle - 1 else 0), w, cl @ [fd c])
        = (kept, idle', w', cl')"
      by simp
    from Cons.IH [OF this] show ?thesis by (auto split: if_splits)
  next
    case True
    obtain ok w1 where u: "usable w (fd c) = (ok, w1)" by (cases "usable w (fd c)")
    show ?thesis
    proof (cases ok)
      case False
      with True u Cons.prems
      have "reap_conns usable g now cs ((if 0 < idle then idle - 1 else 0), w1, cl @ [fd c])
          = (kept, idle', w', cl')"
        by simp
      from Cons.IH [OF this] show ?thesis by (auto split: if_splits)
    next
      case ok: True
      obtain kept1 acc1 where r: "reap_conns usable g now cs (idle, w1, cl) = (kept1, acc1)"
        by (cases "reap_conns usable g now cs (idle, w1, cl)")
      with True u ok Cons.prems have "kept = c # kept1" "acc1 = (idle', w', cl')"
        by simp_all
      with r Cons.IH [of idle w1 cl kept1 idle' w' cl'] show ?thesis by simp
    qed
  qed
qed

lemma reap_keys_bounds:
  "reap_keys usable g now bk (idle, w, cl) = (bk', idle', w', cl')
     \<Longrightarrow> idle' \<le> idle
       \<and> (\<forall>(k, c) \<in> set bk'. \<exists>c0. (k, c0) \<in> set bk \<and> length c \<le> length c0)"
proof (induction bk arbitrary: idle w cl bk' idle' w' cl')
  case Nil
  then show ?case by simp
next
  case (Cons kc rest)
  obtain k conns where kc: "kc = (k, conns)" by (cases kc)
  obtain kept idle1 w1 cl1 where r1: "reap_conns usable g now conns (idle, w, cl) = (kept, idle1, w1, cl1)"
    by (cases "reap_conns usable g now conns (idle, w, cl)") auto
  obtain rest' idle2 w2 cl2 where r2: "reap_keys usable g now rest (idle1, w1, cl1) = (rest', idle2, w2, cl2)"
    by (cases "reap_keys usable g now rest (idle1, w1, cl1)") auto
  from Cons.prems kc r1 r2
  have res: "bk' = (if kept = [] then rest' else (k, kept) # rest')" "idle' = idle2"
    by simp_all
  from reap_conns_bounds [OF r1] have b1: "length kept \<le> length conns" "idle1 \<le> idle"
    by simp_all
  from Cons.IH [OF r2] have b2: "idle2 \<le> idle1"
    "\<forall>(k, c) \<in> set rest'. \<exists>c0. (k, c0) \<in> set rest \<and> length c \<le> length c0"
    by simp_all
  from b1 b2 res kc show ?case
    by (auto split: if_splits)
qed

lemma reap_locked_caps:
  assumes "pool_within_caps g (pool st)"
  shows "pool_within_caps g (pool (reap_locked usable rank g now st))"
    and "idle_total (pool (reap_locked usable rank g now st)) \<le> idle_total (pool st)"
proof -
  let ?walked = "walk (rank (walks st)) (by_key (pool st))"
  have same: "set ?walked = set (by_key (pool st))"
    by (simp add: walk_def)
  obtain bk idle w cl where r:
    "reap_keys usable g now ?walked (idle_total (pool st), world st, closed st)
       = (bk, idle, w, cl)"
    by (cases "reap_keys usable g now ?walked (idle_total (pool st), world st, closed st)")
      auto
  then have p: "pool (reap_locked usable rank g now st) = \<lparr> by_key = bk, idle_total = idle \<rparr>"
    by (simp add: reap_locked_def)
  from reap_keys_bounds [OF r] same have b: "idle \<le> idle_total (pool st)"
    "\<forall>(k, c) \<in> set bk. \<exists>c0. (k, c0) \<in> set (by_key (pool st)) \<and> length c \<le> length c0"
    by simp_all
  from b(1) p show "idle_total (pool (reap_locked usable rank g now st)) \<le> idle_total (pool st)"
    by simp
  from assms b p show "pool_within_caps g (pool (reap_locked usable rank g now st))"
    unfolding pool_within_caps_def by fastforce
qed

text \<open>
  The order of the walk decides in which order the sockets are probed and closed: two
  keys hold one dead socket each, and the socket of the key that is visited first is
  closed first.
\<close>

lemma reap_locked_walk_order:
  "closed (reap_locked (\<lambda>w s. (False, w)) (\<lambda>n k. if k = ''b'' then 0 else 1) default_globals 0
     \<lparr> pool = \<lparr> by_key = [(''a'', [\<lparr> fd = 3, created_at = 0, last_used_at = 0 \<rparr>]),
                            (''b'', [\<lparr> fd = 4, created_at = 0, last_used_at = 0 \<rparr>])],
                idle_total = 2 \<rparr>,
       world = (), closed = [], walks = 0 \<rparr>) = [4, 3]
   \<and> closed (reap_locked (\<lambda>w s. (False, w)) (\<lambda>n k. if k = ''a'' then 0 else 1) default_globals 0
     \<lparr> pool = \<lparr> by_key = [(''a'', [\<lparr> fd = 3, created_at = 0, last_used_at = 0 \<rparr>]),
                            (''b'', [\<lparr> fd = 4, created_at = 0, last_used_at = 0 \<rparr>])],
                idle_total = 2 \<rparr>,
       world = (), closed = [], walks = 0 \<rparr>) = [3, 4]"
  by (simp add: reap_locked_def walk_def is_conn_fresh_def default_globals_def)

lemma pop_usable_bounds:
  "pop_usable usable g now conns (idle, w, cl) = (found, conns', idle', w', cl')
     \<Longrightarrow> length conns' \<le> length conns \<and> idle' \<le> idle"
proof (induction conns arbitrary: idle w cl rule: length_induct)
  case (1 conns)
  note prem = "1.prems" [unfolded pop_usable.simps [of usable g now conns]]
  show ?case
  proof (cases "conns = []")
    case True
    with prem show ?thesis by simp
  next
    case False
    then have shorter: "length (butlast conns) < length conns" by simp
    let ?idle1 = "if 0 < idle then idle - 1 else 0"
    show ?thesis
    proof (cases "is_conn_fresh g now (last conns)")
      case stale: False
      with False prem
      have "pop_usable usable g now (butlast conns) (?idle1, w, cl @ [fd (last conns)])
          = (found, conns', idle', w', cl')"
        by (simp add: Let_def)
      with "1.IH" shorter have "length conns' \<le> length (butlast conns) \<and> idle' \<le> ?idle1"
        by blast
      then show ?thesis by (auto split: if_splits)
    next
      case fresh: True
      obtain ok w1 where u: "usable w (fd (last conns)) = (ok, w1)"
        by (cases "usable w (fd (last conns))")
      show ?thesis
      proof (cases ok)
        case True
        with False fresh u prem show ?thesis by (auto simp: Let_def split: if_splits)
      next
        case dead: False
        with False fresh u prem
        have "pop_usable usable g now (butlast conns) (?idle1, w1, cl @ [fd (last conns)])
            = (found, conns', idle', w', cl')"
          by (simp add: Let_def)
        with "1.IH" shorter have "length conns' \<le> length (butlast conns) \<and> idle' \<le> ?idle1"
          by blast
        then show ?thesis by (auto split: if_splits)
      qed
    qed
  qed
qed

lemma set_conns_entries:
  "(k', c) \<in> set (set_conns k v bk) \<Longrightarrow> (k', c) \<in> set bk \<or> (k' = k \<and> c = v)"
  by (induction bk) (auto split: if_splits)

lemma map_of_set_conns: "map_of (set_conns k v bk) k = Some v"
  by (induction bk) auto

lemma caps_set_conns:
  assumes "\<forall>(k, c) \<in> set bk. length c \<le> n" and "length v \<le> n"
  shows "\<forall>(k', c) \<in> set (set_conns k v bk). length c \<le> n"
  using assms set_conns_entries by fastforce

lemma acquire_caps:
  assumes "pool_within_caps g (pool st)"
  shows "pool_within_caps g (pool (snd (acquire usable connect rank g key host port now st)))"
proof -
  let ?st1 = "reap_locked usable rank g now st"
  from reap_locked_caps [OF assms] have c1: "pool_within_caps g (pool ?st1)"
    by simp
  show ?thesis
  proof (cases "map_of (by_key (pool ?st1)) key")
    case None
    with c1 show ?thesis
      by (simp add: acquire_def Let_def split: prod.splits)
  next
    case (Some conns)
    then have mem: "(key, conns) \<in> set (by_key (pool ?st1))"
      by (rule map_of_SomeD)
    obtain found conns' idle w cl where p:
      "pop_usable usable g now conns (idle_total (pool ?st1), world ?st1, closed ?st1)
         = (found, conns', idle, w, cl)"
      by (cases "pop_usable usable g now conns (idle_total (pool ?st1), world ?st1, closed ?st1)")
        auto
    from pop_usable_bounds [OF p] have b: "length conns' \<le> length conns"
      "idle \<le> idle_total (pool ?st1)"
      by simp_all
    from c1 mem have "length conns \<le> g_pool_max_idle_per_key g"
      unfolding pool_within_caps_def by fastforce
    with b(1) have "length conns' \<le> g_pool_max_idle_per_key g" by simp
    with c1 have "\<forall>(k', c) \<in> set (set_conns key conns' (by_key (pool ?st1))).
        length c \<le> g_pool_max_idle_per_key g"
      unfolding pool_within_caps_def by (intro caps_set_conns) simp_all
    moreover from c1 b(2) have "idle \<le> g_pool_max_idle_total g"
      unfolding pool_within_caps_def by simp
    ultimately have "pool_within_caps g
        \<lparr> by_key = set_conns key conns' (by_key (pool ?st1)), idle_total = idle \<rparr>"
      unfolding pool_within_caps_def by simp
    with Some p show ?thesis
      by (simp add: acquire_def Let_def split: prod.splits option.splits)
  qed
qed

lemma release_caps:
  assumes "pool_within_caps g (pool st)"
  shows "pool_within_caps g (pool (release usable rank g key sock now st))"
proof (cases "sock < 0")
  case True
  with assms show ?thesis by (simp add: release_def)
next
  case False
  note valid = this
  obtain ok w1 where u: "usable (world st) sock = (ok, w1)"
    by (cases "usable (world st) sock")
  show ?thesis
  proof (cases ok)
    case False
    with valid u assms show ?thesis by (simp add: release_def)
  next
    case True
    let ?st1 = "reap_locked usable rank g now (st\<lparr>world := w1\<rparr>)"
    from assms have "pool_within_caps g (pool (st\<lparr>world := w1\<rparr>))" by simp
    from reap_locked_caps(1) [OF this] have c1: "pool_within_caps g (pool ?st1)" .
    then have pk: "\<forall>(k, c) \<in> set (by_key (pool ?st1)). length c \<le> g_pool_max_idle_per_key g"
      unfolding pool_within_caps_def by simp
    show ?thesis
    proof (cases "g_pool_max_idle_total g \<le> idle_total (pool ?st1)")
      case full: True
      with valid u True c1 show ?thesis by (simp add: release_def Let_def)
    next
      case room: False
      let ?conns = "case map_of (by_key (pool ?st1)) key of None \<Rightarrow> [] | Some cs \<Rightarrow> cs"
      have lc: "length ?conns \<le> g_pool_max_idle_per_key g"
      proof (cases "map_of (by_key (pool ?st1)) key")
        case None
        then show ?thesis by simp
      next
        case (Some cs)
        then have "(key, cs) \<in> set (by_key (pool ?st1))" by (rule map_of_SomeD)
        with pk Some show ?thesis by fastforce
      qed
      show ?thesis
      proof (cases "g_pool_max_idle_per_key g \<le> length ?conns")
        case keyfull: True
        from pk lc have "\<forall>(k', c) \<in> set (set_conns key ?conns (by_key (pool ?st1))).
            length c \<le> g_pool_max_idle_per_key g"
          by (intro caps_set_conns) simp_all
        with c1 have "pool_within_caps g
            ((pool ?st1)\<lparr>by_key := set_conns key ?conns (by_key (pool ?st1))\<rparr>)"
          unfolding pool_within_caps_def by simp
        with valid u True room keyfull show ?thesis
          by (simp add: release_def Let_def)
      next
        case keyroom: False
        let ?new = "?conns @ [\<lparr> fd = sock, created_at = now, last_used_at = now \<rparr>]"
        from keyroom have "length ?new \<le> g_pool_max_idle_per_key g" by simp
        with pk have "\<forall>(k', c) \<in> set (set_conns key ?new (by_key (pool ?st1))).
            length c \<le> g_pool_max_idle_per_key g"
          by (intro caps_set_conns) simp_all
        moreover have "(idle_total (pool ?st1) + 1) mod 2 ^ 64 \<le> g_pool_max_idle_total g"
        proof -
          have "(idle_total (pool ?st1) + 1) mod 2 ^ 64 \<le> idle_total (pool ?st1) + 1"
            by (rule mod_less_eq_dividend)
          with room show ?thesis by simp
        qed
        ultimately have "pool_within_caps g
            \<lparr> by_key = set_conns key ?new (by_key (pool ?st1)),
              idle_total = (idle_total (pool ?st1) + 1) mod 2 ^ 64 \<rparr>"
          unfolding pool_within_caps_def by simp
        with valid u True room keyroom show ?thesis
          by (simp add: release_def Let_def)
      qed
    qed
  qed
qed

lemma pool_step_caps:
  "pool_within_caps g (pool st) \<Longrightarrow> pool_within_caps g (pool (pool_step usable connect rank g op st))"
  by (cases op) (simp_all add: acquire_caps release_caps)

lemma run_ops_caps:
  "pool_within_caps g (pool st) \<Longrightarrow> pool_within_caps g (pool (run_ops usable connect rank g ops st))"
  by (induction ops arbitrary: st) (simp_all add: pool_step_caps)

text \<open>
  C2: in every run of \<^verbatim>\<open>acquire\<close> and \<^verbatim>\<open>release\<close> calls that starts from the empty pool,
  after each call \<^verbatim>\<open>idle_total\<close> is at most \<^verbatim>\<open>pool_max_idle_total\<close> and no list of a key
  holds more than \<^verbatim>\<open>pool_max_idle_per_key\<close> entries. \<^verbatim>\<open>release\<close> of a socket closes it
  and leaves the pool as it is when the liveness probe fails; otherwise it reaps the
  pool, and then closes the socket without parking it when \<^verbatim>\<open>idle_total\<close> has reached the
  global cap or the list of the key has reached the cap per key, and else appends it to
  the list of the key with \<^verbatim>\<open>last_used_at\<close> set to now and adds one to \<^verbatim>\<open>idle_total\<close>.
\<close>

theorem pool_caps_release:
  assumes "0 \<le> sock"
    and "g_pool_max_idle_total g < 2 ^ 64"
    and "usable (world st) sock = (ok, w1)"
    and "st1 = reap_locked usable rank g now (st\<lparr>world := w1\<rparr>)"
    and "conns = (case map_of (by_key (pool st1)) key of None \<Rightarrow> [] | Some cs \<Rightarrow> cs)"
    and "r = release usable rank g key sock now st"
  shows "pool_within_caps g
           (pool (run_ops usable connect rank g ops \<lparr> pool = UpstreamPool0, world = w0, closed = [], walks = 0 \<rparr>))
       \<and> (\<not> ok \<longrightarrow> pool r = pool st \<and> closed r = closed st @ [sock])
       \<and> (ok \<and> g_pool_max_idle_total g \<le> idle_total (pool st1)
            \<longrightarrow> pool r = pool st1 \<and> closed r = closed st1 @ [sock])
       \<and> (ok \<and> idle_total (pool st1) < g_pool_max_idle_total g
              \<and> g_pool_max_idle_per_key g \<le> length conns
            \<longrightarrow> idle_total (pool r) = idle_total (pool st1)
                \<and> by_key (pool r) = set_conns key conns (by_key (pool st1))
                \<and> closed r = closed st1 @ [sock])
       \<and> (ok \<and> idle_total (pool st1) < g_pool_max_idle_total g
              \<and> length conns < g_pool_max_idle_per_key g
            \<longrightarrow> idle_total (pool r) = idle_total (pool st1) + 1
                \<and> map_of (by_key (pool r)) key
                    = Some (conns @ [\<lparr> fd = sock, created_at = now, last_used_at = now \<rparr>])
                \<and> closed r = closed st1)"
proof -
  have "pool_within_caps g (pool \<lparr> pool = UpstreamPool0, world = w0, closed = [], walks = 0 \<rparr>)"
    by (simp add: pool_within_caps_def UpstreamPool0_def)
  then have caps: "pool_within_caps g
      (pool (run_ops usable connect rank g ops \<lparr> pool = UpstreamPool0, world = w0, closed = [], walks = 0 \<rparr>))"
    by (rule run_ops_caps)
  have dead: "pool r = pool st \<and> closed r = closed st @ [sock]" if "\<not> ok"
    using that assms(1,3,6) by (simp add: release_def)
  have full: "pool r = pool st1 \<and> closed r = closed st1 @ [sock]"
    if "ok" "g_pool_max_idle_total g \<le> idle_total (pool st1)"
    using that assms(1,3,4,6) by (simp add: release_def Let_def)
  have keyfull: "idle_total (pool r) = idle_total (pool st1)
      \<and> by_key (pool r) = set_conns key conns (by_key (pool st1))
      \<and> closed r = closed st1 @ [sock]"
    if "ok" "idle_total (pool st1) < g_pool_max_idle_total g"
      "g_pool_max_idle_per_key g \<le> length conns"
    using that assms(1,3,4,5,6) by (simp add: release_def Let_def)
  have parked: "idle_total (pool r) = idle_total (pool st1) + 1
      \<and> map_of (by_key (pool r)) key
          = Some (conns @ [\<lparr> fd = sock, created_at = now, last_used_at = now \<rparr>])
      \<and> closed r = closed st1"
    if "ok" "idle_total (pool st1) < g_pool_max_idle_total g"
      "length conns < g_pool_max_idle_per_key g"
  proof -
    from that(2) assms(2) have "idle_total (pool st1) + 1 < 2 ^ 64" by simp
    then have "(idle_total (pool st1) + 1) mod 2 ^ 64 = idle_total (pool st1) + 1"
      by (rule mod_less)
    with that assms(1,3,4,5,6) show ?thesis
      by (simp add: release_def Let_def map_of_set_conns)
  qed
  from caps dead full keyfull parked show ?thesis
    by blast
qed

theorem pool_caps_release_witness:
  "pool_within_caps default_globals
     (pool (run_ops (\<lambda>w s. (True, w)) (\<lambda>w h p. (9, w)) (\<lambda>n k. 0) default_globals
        [Release ''k'' 3 0, Release ''k'' 4 1, Acquire ''k'' ''h'' 80 2]
        \<lparr> pool = UpstreamPool0, world = (), closed = [], walks = 0 \<rparr>))
   \<and> idle_total (pool (release (\<lambda>w s. (True, w)) (\<lambda>n k. 0) default_globals ''k'' 7 5
        \<lparr> pool = UpstreamPool0, world = (), closed = [], walks = 0 \<rparr>)) = 1
   \<and> map_of (by_key (pool (release (\<lambda>w s. (True, w)) (\<lambda>n k. 0) default_globals ''k'' 7 5
        \<lparr> pool = UpstreamPool0, world = (), closed = [], walks = 0 \<rparr>))) ''k''
       = Some [\<lparr> fd = 7, created_at = 5, last_used_at = 5 \<rparr>]"
proof -
  let ?st = "\<lparr> pool = UpstreamPool0, world = (), closed = [], walks = 0 \<rparr>"
  let ?u = "\<lambda>(w :: unit) (s :: int). (True, w)"
  have 1: "(0::int) \<le> 7" by simp
  have 2: "g_pool_max_idle_total default_globals < 2 ^ 64"
    by (simp add: default_globals_def)
  have 3: "?u (world ?st) 7 = (True, ())" by simp
  have 4: "?st\<lparr>walks := 1\<rparr> = reap_locked ?u (\<lambda>n k. 0) default_globals 5 (?st\<lparr>world := ()\<rparr>)"
    by (simp add: reap_locked_def walk_def UpstreamPool0_def)
  have 5: "[] = (case map_of (by_key (pool (?st\<lparr>walks := 1\<rparr>))) ''k'' of None \<Rightarrow> []
      | Some cs \<Rightarrow> cs)"
    by (simp add: UpstreamPool0_def)
  from pool_caps_release [OF 1 2 3 4 5 refl, where connect = "\<lambda>w h p. (9, w)"
      and ops = "[Release ''k'' 3 0, Release ''k'' 4 1, Acquire ''k'' ''h'' 80 2]" and ?w0.0 = "()"]
  show ?thesis
    by (simp add: UpstreamPool0_def default_globals_def)
qed

section \<open>Responses without a body\<close>

lemma parse_response_header_lines_status:
  "parse_response_header_lines s out = Some out' \<Longrightarrow> status_code out' = status_code out"
proof (induction s out rule: parse_response_header_lines.induct)
  case (1 s out)
  note prem = "1.prems" [unfolded parse_response_header_lines.simps [of s out]]
  show ?case
  proof (cases "getline s")
    case None
    with prem show ?thesis by simp
  next
    case (Some lr)
    note gl = this
    obtain line0 rest where lr: "lr = (line0, rest)" by (cases lr)
    show ?thesis
    proof (cases "strip_cr line0 = []")
      case True
      with gl lr prem show ?thesis by simp
    next
      case False
      note ne = this
      show ?thesis
      proof (cases "find_char CHR '':'' (strip_cr line0)")
        case None
        with gl lr ne prem have "parse_response_header_lines rest out = Some out'"
          by simp
        with "1.IH"(1) [OF gl lr [symmetric] refl ne None] show ?thesis by simp
      next
        case (Some pos)
        note colon = this
        let ?key = "to_lower (trim (substr (strip_cr line0) 0 pos))"
        let ?val = "to_lower (trim (drop (pos + 1) (strip_cr line0)))"
        show ?thesis
        proof (cases "?key = ''transfer-encoding'' \<and> find_str ''chunked'' ?val \<noteq> None")
          case True
          with gl lr ne colon prem
          have "parse_response_header_lines rest (out\<lparr>resp_chunked := True\<rparr>) = Some out'"
            by (auto simp: Let_def split: if_splits)
          with "1.IH"(2) [OF gl lr [symmetric] refl ne colon refl refl True] show ?thesis
            by simp
        next
          case False
          note nte = this
          show ?thesis
          proof (cases "?key = ''content-length''")
            case True
            note cl = this
            show ?thesis
            proof (cases "stoull 10 ?val")
              case None
              with gl lr ne colon nte cl prem show ?thesis
                by (auto simp: Let_def split: if_splits)
            next
              case (Some n)
              with gl lr ne colon nte cl prem
              have "parse_response_header_lines rest (out\<lparr>content_length := Some n\<rparr>) = Some out'"
                by (auto simp: Let_def split: if_splits)
              with "1.IH"(3) [OF gl lr [symmetric] refl ne colon refl refl nte cl Some]
              show ?thesis by simp
            qed
          next
            case False
            note ncl = this
            show ?thesis
            proof (cases "?key = ''connection'' \<and> find_str ''close'' ?val \<noteq> None")
              case True
              with gl lr ne colon nte ncl prem
              have "parse_response_header_lines rest (out\<lparr>connection_close := True\<rparr>) = Some out'"
                by (auto simp: Let_def split: if_splits)
              with "1.IH"(4) [OF gl lr [symmetric] refl ne colon refl refl nte ncl True]
              show ?thesis by simp
            next
              case False
              with gl lr ne colon nte ncl prem
              have "parse_response_header_lines rest out = Some out'"
                by (auto simp: Let_def split: if_splits)
              with "1.IH"(5) [OF gl lr [symmetric] refl ne colon refl refl nte ncl False]
              show ?thesis by simp
            qed
          qed
        qed
      qed
    qed
  qed
qed

lemma digit_not_space: "is_digit 10 c \<Longrightarrow> \<not> isspace c"
  by (auto simp: isspace_def is_digit_def digit_val_def tolower_def)

lemma takeWhile_digit_token:
  "takeWhile (is_digit 10) (takeWhile (\<lambda>c. \<not> isspace c) xs) = takeWhile (is_digit 10) xs"
  by (induction xs) (auto dest: digit_not_space)

lemma strto_token:
  "strto 10 (takeWhile (\<lambda>c. \<not> isspace c) (c # cs)) = strto 10 (c # cs)" if "\<not> isspace c"
  using that by (simp add: strto_def Let_def takeWhile_digit_token)

lemma strto_skip: "strto 10 (dropWhile isspace s) = strto 10 s"
  by (simp add: strto_def Let_def)

lemma strto_first_token:
  "strto 10 (takeWhile (\<lambda>c. \<not> isspace c) (dropWhile isspace s)) = strto 10 s"
proof (cases "dropWhile isspace s")
  case Nil
  have "strto 10 (takeWhile (\<lambda>c. \<not> isspace c) (dropWhile isspace s)) = strto 10 (dropWhile isspace s)"
    unfolding Nil by simp
  then show ?thesis by (simp only: strto_skip)
next
  case (Cons c cs)
  have nsp: "\<not> isspace c"
    using Cons hd_dropWhile [of isspace s] by auto
  from strto_token [OF nsp, of cs] Cons
  have "strto 10 (takeWhile (\<lambda>c. \<not> isspace c) (dropWhile isspace s)) = strto 10 (dropWhile isspace s)"
    by simp
  then show ?thesis by (simp only: strto_skip)
qed

lemma split_lines_from_run:
  "split_lines_from cur s =
     (if cur = [] \<and> s = [] then []
      else (cur @ takeWhile (\<lambda>c. c \<noteq> LF) s) # split_lines_from [] (drop 1 (dropWhile (\<lambda>c. c \<noteq> LF) s)))"
  by (induction s arbitrary: cur) auto

lemma split_lines_getline:
  "split_lines s = (case getline s of None \<Rightarrow> [] | Some (l, r) \<Rightarrow> l # split_lines r)"
  unfolding split_lines_def getline_def
  by (subst split_lines_from_run) simp


lemma extract_int_token:
  "extract_int r1 = (case ws_tokens r1 of [] \<Rightarrow> None | t # ts \<Rightarrow> stoi t)"
proof (cases "extract_word r1")
  case None
  then have d: "dropWhile isspace r1 = []"
    by (simp add: extract_word_def Let_def split: if_splits)
  have "strto 10 (dropWhile isspace r1) = None"
    unfolding d by (simp add: strto_def)
  then have "strto 10 r1 = None"
    by (simp only: strto_skip)
  with extract_word_None [OF None] show ?thesis
    by (simp add: extract_int_def)
next
  case (Some wr)
  obtain w r where wr: "wr = (w, r)" by (cases wr)
  from Some wr have w: "w = takeWhile (\<lambda>c. \<not> isspace c) (dropWhile isspace r1)"
    by (auto simp: extract_word_def Let_def split: if_splits)
  have "strto 10 w = strto 10 r1"
    unfolding w by (rule strto_first_token)
  then have "stoi w = extract_int r1"
    by (simp add: stoi_def extract_int_def)
  with extract_word_Some [OF Some [unfolded wr]] show ?thesis
    by simp
qed

lemma status_line_tokens:
  "(case extract_word line of None \<Rightarrow> None | Some (v, r1) \<Rightarrow> extract_int r1)
     = (case ws_tokens line of v # code # rest \<Rightarrow> stoi code | _ \<Rightarrow> None)"
proof (cases "extract_word line")
  case None
  with extract_word_None [OF None] show ?thesis by simp
next
  case (Some wr)
  obtain w r where wr: "wr = (w, r)" by (cases wr)
  from extract_word_Some [OF Some [unfolded wr]] Some wr extract_int_token [of r]
  show ?thesis
    by (simp split: list.splits)
qed


lemma parse_response_header_lines_None:
  "parse_response_header_lines s out = None
     \<longleftrightarrow> list_ex bad_length_line (takeWhile (\<lambda>l. l \<noteq> []) (map strip_cr (split_lines s)))"
proof (induction s out rule: parse_response_header_lines.induct)
  case (1 s out)
  note unf = parse_response_header_lines.simps [of s out]
  show ?case
  proof (cases "getline s")
    case None
    with unf split_lines_getline [of s] show ?thesis by simp
  next
    case (Some lr)
    note gl = this
    obtain line0 rest where lr: "lr = (line0, rest)" by (cases lr)
    from gl lr split_lines_getline [of s]
    have sl: "split_lines s = line0 # split_lines rest" by simp
    show ?thesis
    proof (cases "strip_cr line0 = []")
      case True
      with gl lr unf sl show ?thesis by simp
    next
      case False
      note ne = this
      let ?tail = "list_ex bad_length_line
          (takeWhile (\<lambda>l. l \<noteq> []) (map strip_cr (split_lines rest)))"
      from sl ne have rhs: "list_ex bad_length_line
          (takeWhile (\<lambda>l. l \<noteq> []) (map strip_cr (split_lines s)))
            \<longleftrightarrow> bad_length_line (strip_cr line0) \<or> ?tail"
        by simp
      show ?thesis
      proof (cases "find_char CHR '':'' (strip_cr line0)")
        case None
        with gl lr ne unf
        have "parse_response_header_lines s out = parse_response_header_lines rest out"
          by simp
        moreover from None have "\<not> bad_length_line (strip_cr line0)"
          by (simp add: bad_length_line_def)
        ultimately show ?thesis
          using "1.IH"(1) [OF gl lr [symmetric] refl ne None] rhs by simp
      next
        case (Some pos)
        note colon = this
        let ?key = "to_lower (trim (substr (strip_cr line0) 0 pos))"
        let ?val = "to_lower (trim (drop (pos + 1) (strip_cr line0)))"
        from colon have bad: "bad_length_line (strip_cr line0)
            \<longleftrightarrow> ?key = ''content-length'' \<and> stoull 10 ?val = None"
          by (simp add: bad_length_line_def)
        show ?thesis
        proof (cases "?key = ''transfer-encoding'' \<and> find_str ''chunked'' ?val \<noteq> None")
          case True
          with gl lr ne colon unf
          have "parse_response_header_lines s out
              = parse_response_header_lines rest (out\<lparr>resp_chunked := True\<rparr>)"
            by (auto simp: Let_def split: if_splits)
          moreover from True bad have "\<not> bad_length_line (strip_cr line0)"
            by simp
          ultimately show ?thesis
            using "1.IH"(2) [OF gl lr [symmetric] refl ne colon refl refl True] rhs by simp
        next
          case False
          note nte = this
          show ?thesis
          proof (cases "?key = ''content-length''")
            case True
            note cl = this
            show ?thesis
            proof (cases "stoull 10 ?val")
              case None
              with gl lr ne colon nte cl unf
              have "parse_response_header_lines s out = None"
                by (auto simp: Let_def split: if_splits)
              moreover from None cl bad have "bad_length_line (strip_cr line0)"
                by simp
              ultimately show ?thesis
                using rhs by simp
            next
              case (Some n)
              with gl lr ne colon nte cl unf
              have "parse_response_header_lines s out
                  = parse_response_header_lines rest (out\<lparr>content_length := Some n\<rparr>)"
                by (auto simp: Let_def split: if_splits)
              moreover from Some bad have "\<not> bad_length_line (strip_cr line0)"
                by simp
              ultimately show ?thesis
                using "1.IH"(3) [OF gl lr [symmetric] refl ne colon refl refl nte cl Some] rhs
                by simp
            qed
          next
            case False
            note ncl = this
            from ncl bad have nb: "\<not> bad_length_line (strip_cr line0)"
              by simp
            show ?thesis
            proof (cases "?key = ''connection'' \<and> find_str ''close'' ?val \<noteq> None")
              case True
              with gl lr ne colon nte ncl unf
              have "parse_response_header_lines s out
                  = parse_response_header_lines rest (out\<lparr>connection_close := True\<rparr>)"
                by (auto simp: Let_def split: if_splits)
              then show ?thesis
                using "1.IH"(4) [OF gl lr [symmetric] refl ne colon refl refl nte ncl True] rhs nb
                by simp
            next
              case False
              with gl lr ne colon nte ncl unf
              have "parse_response_header_lines s out = parse_response_header_lines rest out"
                by (auto simp: Let_def split: if_splits)
              then show ?thesis
                using "1.IH"(5) [OF gl lr [symmetric] refl ne colon refl refl nte ncl False] rhs nb
                by simp
            qed
          qed
        qed
      qed
    qed
  qed
qed


lemma parse_response_headers_None:
  "parse_response_headers raw req_method = None \<longleftrightarrow> status_of raw = None \<or> bad_content_length raw"
proof (cases "getline raw")
  case None
  then have "raw = []"
    by (simp add: getline_def split: if_splits)
  then have "status_of raw = None"
    by (simp add: status_of_def strip_cr_def ws_tokens_def)
  with None show ?thesis
    by (simp add: parse_response_headers_def)
next
  case (Some lr)
  obtain line0 rest where lr: "lr = (line0, rest)" by (cases lr)
  from Some lr have l0: "line0 = takeWhile (\<lambda>c. c \<noteq> LF) raw"
    by (simp add: getline_def split: if_splits)
  from Some lr split_lines_getline [of raw]
  have "split_lines raw = line0 # split_lines rest" by simp
  then have hl: "bad_content_length raw
      \<longleftrightarrow> list_ex bad_length_line (takeWhile (\<lambda>l. l \<noteq> []) (map strip_cr (split_lines rest)))"
    by (simp add: bad_content_length_def response_header_lines_def)
  have st: "status_of raw
      = (case extract_word (strip_cr line0) of None \<Rightarrow> None | Some (v, r1) \<Rightarrow> extract_int r1)"
    unfolding status_of_def l0 by (rule status_line_tokens [symmetric])
  show ?thesis
  proof (cases "extract_word (strip_cr line0)")
    case None
    with Some lr st show ?thesis
      by (simp add: parse_response_headers_def)
  next
    case (Some wr)
    note ew = this
    obtain v r1 where wr: "wr = (v, r1)" by (cases wr)
    show ?thesis
    proof (cases "extract_int r1")
      case None
      with \<open>getline raw = Some lr\<close> lr ew wr st show ?thesis
        by (simp add: parse_response_headers_def)
    next
      case (Some code)
      note ei = this
      from ew wr ei st have sn: "status_of raw \<noteq> None" by simp
      show ?thesis
      proof (cases "parse_response_header_lines rest (ResponseMeta0\<lparr>status_code := code\<rparr>)")
        case None
        with parse_response_header_lines_None [of rest "ResponseMeta0\<lparr>status_code := code\<rparr>"] hl
        have "bad_content_length raw" by simp
        moreover from \<open>getline raw = Some lr\<close> lr ew wr ei None
        have "parse_response_headers raw req_method = None"
          by (simp add: parse_response_headers_def)
        ultimately show ?thesis by simp
      next
        case (Some out)
        with parse_response_header_lines_None [of rest "ResponseMeta0\<lparr>status_code := code\<rparr>"] hl
        have "\<not> bad_content_length raw" by simp
        moreover from \<open>getline raw = Some lr\<close> lr ew wr ei Some
        have "parse_response_headers raw req_method \<noteq> None"
          by (simp add: parse_response_headers_def Let_def)
        ultimately show ?thesis using sn by blast
      qed
    qed
  qed
qed

lemma parse_response_headers_status:
  assumes "parse_response_headers raw req_method = Some meta"
  shows "status_of raw = Some (status_code meta)"
proof -
  from assms obtain line0 rest where gl: "getline raw = Some (line0, rest)"
    by (auto simp: parse_response_headers_def split: option.splits)
  from assms gl obtain v r1 where ew: "extract_word (strip_cr line0) = Some (v, r1)"
    by (auto simp: parse_response_headers_def split: option.splits)
  from assms gl ew obtain code where ei: "extract_int r1 = Some code"
    by (auto simp: parse_response_headers_def split: option.splits)
  from assms gl ew ei obtain out where
    pl: "parse_response_header_lines rest (ResponseMeta0\<lparr>status_code := code\<rparr>) = Some out"
    by (auto simp: parse_response_headers_def split: option.splits)
  from parse_response_header_lines_status [OF pl] have so: "status_code out = code"
    by simp
  let ?nb = "to_lower req_method = ''head''
      \<or> (100 \<le> status_code out \<and> status_code out < 200 \<and> status_code out \<noteq> 101)
      \<or> status_code out = 204 \<or> status_code out = 304"
  from assms gl ew ei pl
  have "meta = (if ?nb then out\<lparr>no_body := True, resp_chunked := False, content_length := Some 0\<rparr>
                else out\<lparr>no_body := False\<rparr>)"
    by (simp add: parse_response_headers_def Let_def)
  then have "status_code meta = status_code out"
    by (simp split: if_splits)
  with so have sc: "status_code meta = code" by simp
  from gl have l0: "line0 = takeWhile (\<lambda>c. c \<noteq> LF) raw"
    by (simp add: getline_def split: if_splits)
  have "status_of raw
      = (case extract_word (strip_cr line0) of None \<Rightarrow> None | Some (v, r1) \<Rightarrow> extract_int r1)"
    unfolding status_of_def l0 by (rule status_line_tokens [symmetric])
  with ew ei sc show ?thesis by simp
qed

text \<open>
  C6, as the code has it. \<^verbatim>\<open>parse_response_headers\<close> rejects a response head exactly when
  its status line does not carry a version token followed by an integer status, or one of
  its header lines is a \<^verbatim>\<open>Content-Length\<close> that \<^verbatim>\<open>std::stoull\<close> cannot convert. For every
  head that it accepts for a request method, the status code is the one on the status
  line, and \<^verbatim>\<open>no_body\<close> is true exactly when the method is \<^verbatim>\<open>HEAD\<close> in any letter case, or
  the status code is 204 or 304, or it is a 1xx code other than 101. When \<^verbatim>\<open>no_body\<close> is
  true the chunked flag is cleared and the content length is set to 0, and the relay of
  the body does not depend on either: it returns without reading from the upstream.
\<close>

theorem no_body_rule:
  "(parse_response_headers raw_headers req_method = None
      \<longleftrightarrow> status_of raw_headers = None \<or> bad_content_length raw_headers)
   \<and> (\<forall>meta. parse_response_headers raw_headers req_method = Some meta \<longrightarrow>
         status_of raw_headers = Some (status_code meta)
       \<and> (no_body meta \<longleftrightarrow>
            to_lower req_method = ''head'' \<or> status_code meta = 204 \<or> status_code meta = 304
              \<or> (100 \<le> status_code meta \<and> status_code meta < 200 \<and> status_code meta \<noteq> 101))
       \<and> (no_body meta \<longrightarrow>
            \<not> resp_chunked meta \<and> content_length meta = Some 0
              \<and> relay_body (meta\<lparr>resp_chunked := c, content_length := l\<rparr>) body_buf es cl
                  = relay_body meta body_buf es cl
              \<and> (\<exists>out cl'. relay_body meta body_buf es cl = Some (Returned out, es, cl'))))"
proof (intro conjI allI impI)
  show "parse_response_headers raw_headers req_method = None
      \<longleftrightarrow> status_of raw_headers = None \<or> bad_content_length raw_headers"
    by (rule parse_response_headers_None)
next
  fix meta
  assume a: "parse_response_headers raw_headers req_method = Some meta"
  show "status_of raw_headers = Some (status_code meta)"
    using a by (rule parse_response_headers_status)
  from a obtain line0 rest where gl: "getline raw_headers = Some (line0, rest)"
    by (auto simp: parse_response_headers_def split: option.splits)
  from a gl obtain http_version r1 where ew: "extract_word (strip_cr line0) = Some (http_version, r1)"
    by (auto simp: parse_response_headers_def split: option.splits)
  from a gl ew obtain code where ei: "extract_int r1 = Some code"
    by (auto simp: parse_response_headers_def split: option.splits)
  from a gl ew ei obtain out where
    pl: "parse_response_header_lines rest (ResponseMeta0\<lparr>status_code := code\<rparr>) = Some out"
    by (auto simp: parse_response_headers_def split: option.splits)
  let ?nb = "to_lower req_method = ''head''
      \<or> (100 \<le> status_code out \<and> status_code out < 200 \<and> status_code out \<noteq> 101)
      \<or> status_code out = 204 \<or> status_code out = 304"
  from a gl ew ei pl
  have meta: "meta = (if ?nb then out\<lparr>no_body := True, resp_chunked := False, content_length := Some 0\<rparr>
                      else out\<lparr>no_body := False\<rparr>)"
    by (simp add: parse_response_headers_def Let_def)
  then have sc: "status_code meta = status_code out"
    by (simp split: if_splits)
  from meta have nb: "no_body meta \<longleftrightarrow> ?nb"
    by (simp split: if_splits)
  from nb sc
  show "no_body meta \<longleftrightarrow>
          to_lower req_method = ''head'' \<or> status_code meta = 204 \<or> status_code meta = 304
            \<or> (100 \<le> status_code meta \<and> status_code meta < 200 \<and> status_code meta \<noteq> 101)"
    by auto
  assume n: "no_body meta"
  from n nb have "?nb" by (simp only:)
  then have m2: "meta = out\<lparr>no_body := True, resp_chunked := False, content_length := Some 0\<rparr>"
    unfolding meta by (simp only: if_True)
  show "\<not> resp_chunked meta"
    unfolding m2 by simp
  show "content_length meta = Some 0"
    unfolding m2 by simp
  from n show "relay_body (meta\<lparr>resp_chunked := c, content_length := l\<rparr>) body_buf es cl
      = relay_body meta body_buf es cl"
    by (simp add: relay_body_def)
  from n show "\<exists>out cl'. relay_body meta body_buf es cl = Some (Returned out, es, cl')"
    by (simp add: relay_body_def split: prod.splits)
qed

lemmas relay_eval =
  relay_response_and_decide_reuse_def relay_body_def relay_chunked_body_def relay_chunks.simps
  read_response_head.simps recv_append_upstream.simps parse_response_headers_def
  parse_response_header_lines.simps send_all_def fill_upstream.simps find_trailer_end.simps
  extract_int_def getline_def crlf_def crlfcrlf_def LF_def CR_def strip_cr_def extract_word_def
  isspace_def substr_def trim_def to_lower_def tolower_def stoull_def strto_def is_digit_def
  digit_val_def digits_val_def kMaxHeaderBytes_def Let_def find_from_def ResponseMeta0_def
  RelayOutcome0_def relay_body_with_length_def relay_length_loop.simps
  handle_client_after_relay_def

lemmas head_eval =
  status_of_def ws_tokens_def stoi_def bad_content_length_def response_header_lines_def
  bad_length_line_def split_lines_def

theorem no_body_rule_witness:
  "status_of (''HTTP/1.1 200 OK'' @ crlf @ ''Content-Length: 5'' @ crlf
       @ ''Transfer-Encoding: chunked'' @ crlf @ crlf) = Some 200
   \<and> parse_response_headers
     (''HTTP/1.1 200 OK'' @ crlf @ ''Content-Length: 5'' @ crlf
       @ ''Transfer-Encoding: chunked'' @ crlf @ crlf) ''Head''
     = Some \<lparr> status_code = 200, resp_chunked = False, connection_close = False,
              no_body = True, content_length = Some 0 \<rparr>
   \<and> relay_body \<lparr> status_code = 200, resp_chunked = True, connection_close = False,
                  no_body = True, content_length = Some 5 \<rparr> [] [Recv_data CHR ''h'' ''ello'']
        \<lparr> tx_ok = [], tx = [] \<rparr>
     = Some (Returned \<lparr> upstream_reusable = True, client_can_keepalive = True \<rparr>,
             [Recv_data CHR ''h'' ''ello''], \<lparr> tx_ok = [], tx = [] \<rparr>)"
proof -
  let ?raw = "''HTTP/1.1 200 OK'' @ crlf @ ''Content-Length: 5'' @ crlf
       @ ''Transfer-Encoding: chunked'' @ crlf @ crlf"
  let ?meta = "\<lparr> status_code = 200, resp_chunked = False, connection_close = False,
              no_body = True, content_length = Some 0 \<rparr>"
  have h: "parse_response_headers ?raw ''Head'' = Some ?meta"
    by (simp add: relay_eval)
  have r: "relay_body ?meta [] [Recv_data CHR ''h'' ''ello''] \<lparr> tx_ok = [], tx = [] \<rparr>
     = Some (Returned \<lparr> upstream_reusable = True, client_can_keepalive = True \<rparr>,
             [Recv_data CHR ''h'' ''ello''], \<lparr> tx_ok = [], tx = [] \<rparr>)"
    by (simp add: relay_body_def)
  note t = no_body_rule [where raw_headers = ?raw and req_method = "''Head''" and c = True
      and l = "Some 5" and body_buf = "[]" and es = "[Recv_data CHR ''h'' ''ello'']"
      and cl = "\<lparr> tx_ok = [], tx = [] \<rparr>", THEN conjunct2, rule_format, OF h]
  from t h r show ?thesis
    by simp
qed

text \<open>
  C6 as stated fails: a declared content length is not ignored when the status means
  that there is no body. The head of a 204 response with the header
  \<^verbatim>\<open>Content-Length: abc\<close> is rejected, so that no flag is derived, nothing is forwarded
  to the client and the upstream is not reused; the same response with the header
  \<^verbatim>\<open>Content-Length: 7\<close> is forwarded and the upstream is kept.
\<close>

theorem no_body_bad_length_counterexample:
  "status_of (''HTTP/1.1 204 No Content'' @ crlf @ ''Content-Length: abc'' @ crlf @ crlf) = Some 204
   \<and> parse_response_headers
       (''HTTP/1.1 204 No Content'' @ crlf @ ''Content-Length: abc'' @ crlf @ crlf) ''GET'' = None
   \<and> relay_response_and_decide_reuse
       [Recv_data CHR ''H'' (''TTP/1.1 204 No Content'' @ crlf @ ''Content-Length: abc'' @ crlf
          @ crlf)] \<lparr> tx_ok = [], tx = [] \<rparr> ''GET''
       = Some (Returned \<lparr> upstream_reusable = False, client_can_keepalive = False \<rparr>, [],
               \<lparr> tx_ok = [], tx = [] \<rparr>)
   \<and> relay_response_and_decide_reuse
       [Recv_data CHR ''H'' (''TTP/1.1 204 No Content'' @ crlf @ ''Content-Length: 7'' @ crlf
          @ crlf)] \<lparr> tx_ok = [], tx = [] \<rparr> ''GET''
       = Some (Returned \<lparr> upstream_reusable = True, client_can_keepalive = True \<rparr>, [],
               \<lparr> tx_ok = [],
                 tx = ''HTTP/1.1 204 No Content'' @ crlf @ ''Content-Length: 7'' @ crlf @ crlf \<rparr>)"
  by (simp add: relay_eval head_eval)

section \<open>Completion of a chunked relay\<close>

text \<open>
  C9 against the code. The upstream sends a chunked response whose body ends with the
  zero chunk and the empty trailer section, followed by four more bytes: the relay
  reports the body complete, the upstream goes to the client's cache and the client
  connection is kept. When the upstream sends the same response and nothing after the
  end of the body, the relay waits for more bytes and reports the body incomplete once
  the receive fails.
\<close>

theorem relay_chunked_completion:
  "relay_response_and_decide_reuse
     [Recv_data CHR ''H'' (''TTP/1.1 200 OK'' @ crlf @ ''Transfer-Encoding: chunked'' @ crlf @ crlf
        @ ''5'' @ crlf @ ''hello'' @ crlf @ ''0'' @ crlf @ crlf @ crlf @ crlf)]
     \<lparr> tx_ok = [], tx = [] \<rparr> ''GET''
     = Some (Returned \<lparr> upstream_reusable = True, client_can_keepalive = True \<rparr>, [],
             \<lparr> tx_ok = [],
               tx = ''HTTP/1.1 200 OK'' @ crlf @ ''Transfer-Encoding: chunked'' @ crlf @ crlf
                 @ ''5'' @ crlf @ ''hello'' @ crlf @ ''0'' @ crlf @ crlf @ crlf @ crlf \<rparr>)
   \<and> handle_client_after_relay False 7 ''127.0.0.1:9000'' (- 1, []) True
        \<lparr> upstream_reusable = True, client_can_keepalive = True \<rparr>
     = ((7, ''127.0.0.1:9000''), [], Continue)
   \<and> relay_response_and_decide_reuse
     [Recv_data CHR ''H'' (''TTP/1.1 200 OK'' @ crlf @ ''Transfer-Encoding: chunked'' @ crlf @ crlf
        @ ''5'' @ crlf @ ''hello'' @ crlf @ ''0'' @ crlf @ crlf),
      Recv_error ''Resource temporarily unavailable'']
     \<lparr> tx_ok = [], tx = [] \<rparr> ''GET''
     = Some (Returned \<lparr> upstream_reusable = False, client_can_keepalive = False \<rparr>, [],
             \<lparr> tx_ok = [],
               tx = ''HTTP/1.1 200 OK'' @ crlf @ ''Transfer-Encoding: chunked'' @ crlf @ crlf
                 @ ''5'' @ crlf @ ''hello'' @ crlf @ ''0'' @ crlf @ crlf \<rparr>)
   \<and> handle_client_after_relay False 7 ''127.0.0.1:9000'' (- 1, []) True
        \<lparr> upstream_reusable = False, client_can_keepalive = False \<rparr>
     = ((- 1, []), [7], Break)"
  by (simp add: relay_eval)

end
